theory Spec2Isabelle
  imports Main "HOL-Library.Word"
begin

section \<open>The node store of avlUintLib.c\<close>

text \<open>
  The library is intrusive: it owns no memory, every node lives in caller memory and the
  routines follow and overwrite the \<open>left\<close>, \<open>right\<close> and \<open>height\<close> fields in place. The
  model therefore keeps an explicit store from node addresses to node records. A node
  pointer (\<open>AVLU_NODE *\<close>) is an optional address, \<open>None\<close> being \<open>NULL\<close>. The key is the
  32-bit \<open>UINT\<close> of the non-LP64 configuration; the \<open>height\<close> field is a C \<open>int\<close>, kept as a
  mathematical integer (the heights that occur are bounded by the depth of the tree,
  far below the range of \<open>int\<close>).
\<close>

type_synonym UINT = "32 word"

type_synonym addr = nat

record AVLU_NODE =
  key :: UINT
  left :: "addr option"
  right :: "addr option"
  height :: int

text \<open>
  A value of type \<open>AVLU_NODE **\<close> is the address of a pointer variable: the caller's
  root pointer, or the \<open>left\<close> or \<open>right\<close> field of a node. The ancestor lists of insert
  and delete hold such values.
\<close>

datatype slot = Root | LeftOf addr | RightOf addr

record tree_state =
  mem :: "addr \<Rightarrow> AVLU_NODE"
  root :: "addr option"

datatype STATUS = OK | ERROR

text \<open>A loop either makes the enclosing routine return, or it is left with its variables.\<close>

datatype ('r, 'v) loop = Return 'r | Exit 'v

definition AVLU_MAX_HEIGHT :: nat where
  "AVLU_MAX_HEIGHT = 28"

fun slot_get :: "tree_state \<Rightarrow> slot \<Rightarrow> addr option" where
  "slot_get s Root = root s"
| "slot_get s (LeftOf a) = left (mem s a)"
| "slot_get s (RightOf a) = right (mem s a)"

definition set_left :: "tree_state \<Rightarrow> addr \<Rightarrow> addr option \<Rightarrow> tree_state" where
  "set_left s a p = s\<lparr>mem := (mem s)(a := (mem s a)\<lparr>left := p\<rparr>)\<rparr>"

definition set_right :: "tree_state \<Rightarrow> addr \<Rightarrow> addr option \<Rightarrow> tree_state" where
  "set_right s a p = s\<lparr>mem := (mem s)(a := (mem s a)\<lparr>right := p\<rparr>)\<rparr>"

definition set_height :: "tree_state \<Rightarrow> addr \<Rightarrow> int \<Rightarrow> tree_state" where
  "set_height s a h = s\<lparr>mem := (mem s)(a := (mem s a)\<lparr>height := h\<rparr>)\<rparr>"

fun slot_set :: "tree_state \<Rightarrow> slot \<Rightarrow> addr option \<Rightarrow> tree_state" where
  "slot_set s Root p = s\<lparr>root := p\<rparr>"
| "slot_set s (LeftOf a) p = set_left s a p"
| "slot_set s (RightOf a) p = set_right s a p"

text \<open>\<open>(p != NULL) ? p->height : 0\<close>\<close>

definition height_of :: "tree_state \<Rightarrow> addr option \<Rightarrow> int" where
  "height_of s p = (case p of None \<Rightarrow> 0 | Some a \<Rightarrow> height (mem s a))"

section \<open>avlUintRebalance\<close>

text \<open>
  One iteration of the \<open>while (count > 0)\<close> loop, for the slot \<open>ppNode = ancestors[--count]\<close>.
  The result is \<open>None\<close> when the iteration dereferences \<open>NULL\<close> (the places the source marks
  with "cannot be NULL" and "the algorithm will crash here"); otherwise it is the new
  store together with a flag that is true when the iteration ends in \<open>break\<close>. The
  assignments are applied one after the other, each reading the store the previous ones
  left.
\<close>

definition rebalance_body :: "slot \<Rightarrow> tree_state \<Rightarrow> (bool \<times> tree_state) option" where
  "rebalance_body ppNode s =
    (case slot_get s ppNode of
       None \<Rightarrow> None
     | Some pNode \<Rightarrow>
        let leftp = left (mem s pNode);
            lefth = height_of s leftp;
            rightp = right (mem s pNode);
            righth = height_of s rightp
        in
        if righth - lefth < - 1 then
          (case leftp of
             None \<Rightarrow> None
           | Some lp \<Rightarrow>
              let leftleftp = left (mem s lp);
                  leftrightp = right (mem s lp);
                  leftrighth = height_of s leftrightp
              in
              if (case leftleftp of None \<Rightarrow> False
                  | Some llp \<Rightarrow> height (mem s llp) \<ge> leftrighth)
              then
                let s1 = set_left s pNode leftrightp;
                    s2 = set_height s1 pNode (leftrighth + 1);
                    s3 = set_right s2 lp (Some pNode);
                    s4 = set_height s3 lp (leftrighth + 2);
                    s5 = slot_set s4 ppNode (Some lp)
                in Some (False, s5)
              else
                (case leftrightp of
                   None \<Rightarrow> None
                 | Some lrp \<Rightarrow>
                    let s1 = set_right s lp (left (mem s lrp));
                        s2 = set_height s1 lp leftrighth;
                        s3 = set_left s2 pNode (right (mem s2 lrp));
                        s4 = set_height s3 pNode leftrighth;
                        s5 = set_left s4 lrp (Some lp);
                        s6 = set_right s5 lrp (Some pNode);
                        s7 = set_height s6 lrp (leftrighth + 1);
                        s8 = slot_set s7 ppNode (Some lrp)
                    in Some (False, s8)))
        else if righth - lefth > 1 then
          (case rightp of
             None \<Rightarrow> None
           | Some rp \<Rightarrow>
              let rightleftp = left (mem s rp);
                  rightlefth = height_of s rightleftp;
                  rightrightp = right (mem s rp)
              in
              if (case rightrightp of None \<Rightarrow> False
                  | Some rrp \<Rightarrow> height (mem s rrp) \<ge> rightlefth)
              then
                let s1 = set_right s pNode rightleftp;
                    s2 = set_height s1 pNode (rightlefth + 1);
                    s3 = set_left s2 rp (Some pNode);
                    s4 = set_height s3 rp (rightlefth + 2);
                    s5 = slot_set s4 ppNode (Some rp)
                in Some (False, s5)
              else
                (case rightleftp of
                   None \<Rightarrow> None
                 | Some rlp \<Rightarrow>
                    let s1 = set_right s pNode (left (mem s rlp));
                        s2 = set_height s1 pNode rightlefth;
                        s3 = set_left s2 rp (right (mem s2 rlp));
                        s4 = set_height s3 rp rightlefth;
                        s5 = set_left s4 rlp (Some pNode);
                        s6 = set_right s5 rlp (Some rp);
                        s7 = set_height s6 rlp (rightlefth + 1);
                        s8 = slot_set s7 ppNode (Some rlp)
                    in Some (False, s8)))
        else
          let h = (if righth > lefth then righth else lefth) + 1
          in if height (mem s pNode) = h then Some (True, s)
             else Some (False, set_height s pNode h))"

text \<open>
  The loop itself: \<open>ancestors\<close> is the caller's array, \<open>count\<close> the number of entries to
  process, from index \<open>count - 1\<close> down to \<open>0\<close>.
\<close>

fun avlUintRebalance :: "slot list \<Rightarrow> nat \<Rightarrow> tree_state \<Rightarrow> tree_state option" where
  "avlUintRebalance ancestors 0 s = Some s"
| "avlUintRebalance ancestors (Suc count) s =
    (case rebalance_body (ancestors ! count) s of
       None \<Rightarrow> None
     | Some (brk, s') \<Rightarrow> if brk then Some s' else avlUintRebalance ancestors count s')"

section \<open>avlUintInsert\<close>

text \<open>
  The array \<open>ancestor[AVLU_MAX_HEIGHT]\<close> is a list of that length with the counter
  \<open>ancestorCount\<close> beside it; the loop guard keeps every index in range. The array is
  uninitialised in C and only read below the counter, so its initial contents, here
  \<open>Root\<close> everywhere, are never seen.
\<close>

definition ancestor_init :: "slot list" where
  "ancestor_init = replicate AVLU_MAX_HEIGHT Root"

function insert_loop ::
  "tree_state \<Rightarrow> UINT \<Rightarrow> slot \<Rightarrow> slot list \<Rightarrow> nat \<Rightarrow> (STATUS, slot \<times> slot list \<times> nat) loop"
where
  "insert_loop s k ppNode ancestor ancestorCount =
    (if ancestorCount < AVLU_MAX_HEIGHT then
       (case slot_get s ppNode of
          None \<Rightarrow> Exit (ppNode, ancestor, ancestorCount)
        | Some pNode \<Rightarrow>
           if k = key (mem s pNode) then Return ERROR
           else if k < key (mem s pNode)
           then insert_loop s k (LeftOf pNode) (ancestor[ancestorCount := ppNode]) (ancestorCount + 1)
           else insert_loop s k (RightOf pNode) (ancestor[ancestorCount := ppNode]) (ancestorCount + 1))
     else Exit (ppNode, ancestor, ancestorCount))"
  by pat_completeness auto
termination
  by (relation "measure (\<lambda>(s, k, ppNode, ancestor, ancestorCount). AVLU_MAX_HEIGHT - ancestorCount)") auto

declare insert_loop.simps [simp del]

text \<open>
  The outer \<open>option\<close> of the result is \<open>None\<close> when the call dereferences \<open>NULL\<close>. Both
  arguments are pointers that the routine checks against \<open>NULL\<close>.
\<close>

definition avlUintInsert ::
  "tree_state \<Rightarrow> slot option \<Rightarrow> addr option \<Rightarrow> (STATUS \<times> tree_state) option" where
  "avlUintInsert s pRoot pNewNode =
    (case (pNewNode, pRoot) of
       (Some n, Some r) \<Rightarrow>
         (case insert_loop s (key (mem s n)) r ancestor_init 0 of
            Return st \<Rightarrow> Some (st, s)
          | Exit (ppNode, ancestor, ancestorCount) \<Rightarrow>
             if ancestorCount = AVLU_MAX_HEIGHT then Some (ERROR, s)
             else
               let s1 = set_left s n None;
                   s2 = set_right s1 n None;
                   s3 = set_height s2 n 1;
                   s4 = slot_set s3 ppNode (Some n)
               in map_option (Pair OK) (avlUintRebalance ancestor ancestorCount s4))
     | _ \<Rightarrow> Some (ERROR, s))"

section \<open>avlUintDelete\<close>

function delete_loop ::
  "tree_state \<Rightarrow> UINT \<Rightarrow> slot \<Rightarrow> addr option \<Rightarrow> slot list \<Rightarrow> nat \<Rightarrow>
     (addr option, slot \<times> addr option \<times> slot list \<times> nat) loop"
where
  "delete_loop s k ppNode pNode ancestor ancestorCount =
    (if ancestorCount < AVLU_MAX_HEIGHT then
       (case slot_get s ppNode of
          None \<Rightarrow> Return None
        | Some p \<Rightarrow>
           if k = key (mem s p)
           then Exit (ppNode, Some p, ancestor[ancestorCount := ppNode], ancestorCount + 1)
           else if k < key (mem s p)
           then delete_loop s k (LeftOf p) (Some p) (ancestor[ancestorCount := ppNode]) (ancestorCount + 1)
           else delete_loop s k (RightOf p) (Some p) (ancestor[ancestorCount := ppNode]) (ancestorCount + 1))
     else Exit (ppNode, pNode, ancestor, ancestorCount))"
  by pat_completeness auto
termination
  by (relation "measure (\<lambda>(s, k, ppNode, pNode, ancestor, ancestorCount). AVLU_MAX_HEIGHT - ancestorCount)") auto

declare delete_loop.simps [simp del]

text \<open>
  The search for the node just before the deleted one. \<open>pNode = *ppNode; pNode->right\<close>
  dereferences the pointer read from the slot, hence the \<open>None\<close> result for \<open>NULL\<close>.
\<close>

function pred_loop ::
  "tree_state \<Rightarrow> slot \<Rightarrow> addr \<Rightarrow> slot list \<Rightarrow> nat \<Rightarrow> (slot \<times> addr \<times> slot list \<times> nat) option"
where
  "pred_loop s ppNode pNode ancestor ancestorCount =
    (if ancestorCount < AVLU_MAX_HEIGHT then
       (case slot_get s ppNode of
          None \<Rightarrow> None
        | Some p \<Rightarrow>
           if right (mem s p) = None then Some (ppNode, p, ancestor, ancestorCount)
           else pred_loop s (RightOf p) p (ancestor[ancestorCount := ppNode]) (ancestorCount + 1))
     else Some (ppNode, pNode, ancestor, ancestorCount))"
  by pat_completeness auto
termination
  by (relation "measure (\<lambda>(s, ppNode, pNode, ancestor, ancestorCount). AVLU_MAX_HEIGHT - ancestorCount)") auto

declare pred_loop.simps [simp del]

definition avlUintDelete ::
  "tree_state \<Rightarrow> slot option \<Rightarrow> UINT \<Rightarrow> (addr option \<times> tree_state) option" where
  "avlUintDelete s pRoot k =
    (case pRoot of
       None \<Rightarrow> Some (None, s)
     | Some r \<Rightarrow>
        (case delete_loop s k r None ancestor_init 0 of
           Return res \<Rightarrow> Some (res, s)
         | Exit (ppNode, pNodeOpt, ancestor, ancestorCount) \<Rightarrow>
            if ancestorCount = AVLU_MAX_HEIGHT then Some (None, s)
            else
              (case pNodeOpt of
                 None \<Rightarrow> None
               | Some pNode \<Rightarrow>
                  if left (mem s pNode) = None then
                    let s1 = slot_set s ppNode (right (mem s pNode))
                    in map_option (Pair (Some pNode))
                         (avlUintRebalance ancestor (ancestorCount - 1) s1)
                  else
                    let deleteAncestorCount = ancestorCount;
                        ppDelete = ppNode;
                        pDelete = pNode
                    in
                    (case pred_loop s (LeftOf pNode) pNode ancestor ancestorCount of
                       None \<Rightarrow> None
                     | Some (ppNode', pNode', ancestor', ancestorCount') \<Rightarrow>
                        if ancestorCount' = AVLU_MAX_HEIGHT then Some (None, s)
                        else
                          let s1 = slot_set s ppNode' (left (mem s pNode'));
                              s2 = set_left s1 pNode' (left (mem s1 pDelete));
                              s3 = set_right s2 pNode' (right (mem s2 pDelete));
                              s4 = set_height s3 pNode' (height (mem s3 pDelete));
                              s5 = slot_set s4 ppDelete (Some pNode');
                              ancestor'' = ancestor'[deleteAncestorCount := LeftOf pNode']
                          in map_option (Pair (Some pDelete))
                               (avlUintRebalance ancestor'' ancestorCount' s5)))))"

section \<open>avlUintSearch, avlUintSuccessorGet, avlUintPredecessorGet\<close>

text \<open>
  The three lookups only read the store. Their \<open>while (pNode != NULL)\<close> loops follow child
  pointers for as long as they are not \<open>NULL\<close>, which need not end on a store that does
  not hold a tree, so each loop is a partial function whose value \<open>None\<close> means that the
  loop does not return. The routines hand back the store they were given together with
  their result.
\<close>

partial_function (option) search_loop ::
  "(addr \<Rightarrow> AVLU_NODE) \<Rightarrow> UINT \<Rightarrow> addr option \<Rightarrow> addr option option"
where
  "search_loop m k pNode =
    (case pNode of
       None \<Rightarrow> Some None
     | Some p \<Rightarrow>
        if k = key (m p) then Some (Some p)
        else if k < key (m p) then search_loop m k (left (m p))
        else search_loop m k (right (m p)))"

definition avlUintSearch ::
  "tree_state \<Rightarrow> addr option \<Rightarrow> UINT \<Rightarrow> (addr option \<times> tree_state) option" where
  "avlUintSearch s r k = map_option (\<lambda>res. (res, s)) (search_loop (mem s) k r)"

partial_function (option) successor_loop ::
  "(addr \<Rightarrow> AVLU_NODE) \<Rightarrow> UINT \<Rightarrow> addr option \<Rightarrow> addr option \<Rightarrow> addr option option"
where
  "successor_loop m k pNode pSuccessor =
    (case pNode of
       None \<Rightarrow> Some pSuccessor
     | Some p \<Rightarrow>
        if k \<ge> key (m p) then successor_loop m k (right (m p)) pSuccessor
        else successor_loop m k (left (m p)) (Some p))"

definition avlUintSuccessorGet ::
  "tree_state \<Rightarrow> addr option \<Rightarrow> UINT \<Rightarrow> (addr option \<times> tree_state) option" where
  "avlUintSuccessorGet s r k = map_option (\<lambda>res. (res, s)) (successor_loop (mem s) k r None)"

partial_function (option) predecessor_loop ::
  "(addr \<Rightarrow> AVLU_NODE) \<Rightarrow> UINT \<Rightarrow> addr option \<Rightarrow> addr option \<Rightarrow> addr option option"
where
  "predecessor_loop m k pNode pPred =
    (case pNode of
       None \<Rightarrow> Some pPred
     | Some p \<Rightarrow>
        if k \<le> key (m p) then predecessor_loop m k (left (m p)) pPred
        else predecessor_loop m k (right (m p)) (Some p))"

definition avlUintPredecessorGet ::
  "tree_state \<Rightarrow> addr option \<Rightarrow> UINT \<Rightarrow> (addr option \<times> tree_state) option" where
  "avlUintPredecessorGet s r k = map_option (\<lambda>res. (res, s)) (predecessor_loop (mem s) k r None)"

section \<open>avlUintTreeWalk\<close>

text \<open>
  The non-recursive walk (the build without \<open>AVLU_RECURSIVE_WALK\<close>). A callback is a C
  function that gets the node and the caller's argument and may do anything to the
  caller's memory: it is a function on a world made of the node store and the caller's
  own state \<open>'u\<close>, returning a status and the new world; \<open>None\<close> is the \<open>NULL\<close> routine.
  The walk reads every child pointer from the store as the callbacks left it.

  \<open>nodeStack\<close> is used as a stack with the index \<open>ix\<close>: the model keeps the entries below
  \<open>ix\<close> as a list, top first, so that \<open>ix\<close> is its length. In the post-order pass the source
  tags the low bit of the (aligned) node address on the stack; the entry is modelled as
  the address paired with that bit.
\<close>

type_synonym 'u world = "(addr \<Rightarrow> AVLU_NODE) \<times> 'u"

type_synonym ('a, 'u) AVLU_CALLBACK = "(addr \<Rightarrow> 'a \<Rightarrow> 'u world \<Rightarrow> STATUS \<times> 'u world) option"

text \<open>\<open>if (rtn != NULL) if (rtn (pNode, arg) == ERROR) return (ERROR);\<close>\<close>

definition call :: "('a, 'u) AVLU_CALLBACK \<Rightarrow> addr \<Rightarrow> 'a \<Rightarrow> 'u world \<Rightarrow> STATUS \<times> 'u world" where
  "call rtn pNode arg w = (case rtn of None \<Rightarrow> (OK, w) | Some f \<Rightarrow> f pNode arg w)"

text \<open>The inner loop \<open>while (pNode != NULL)\<close> of the first pass; every round pushes a node.\<close>

function walk_left ::
  "('a, 'u) AVLU_CALLBACK \<Rightarrow> 'a \<Rightarrow> addr option \<Rightarrow> addr list \<Rightarrow> 'u world \<Rightarrow>
     (STATUS \<times> 'u world, addr list \<times> 'u world) loop"
where
  "walk_left preRtn preArg pNode nodeStack w =
    (case pNode of
       None \<Rightarrow> Exit (nodeStack, w)
     | Some p \<Rightarrow>
        (case call preRtn p preArg w of
           (ERROR, w') \<Rightarrow> Return (ERROR, w')
         | (OK, w') \<Rightarrow>
            if length nodeStack \<ge> 2 * AVLU_MAX_HEIGHT then Return (ERROR, w')
            else walk_left preRtn preArg (left (fst w' p)) (p # nodeStack) w'))"
  by pat_completeness auto
termination
  by (relation "measure (\<lambda>(preRtn, preArg, pNode, nodeStack, w). 2 * AVLU_MAX_HEIGHT - length nodeStack)") auto

declare walk_left.simps [simp del]

text \<open>The outer loop \<open>while (ix < 2 * AVLU_MAX_HEIGHT)\<close> of the first pass.\<close>

partial_function (option) walk_pre_in ::
  "('a, 'u) AVLU_CALLBACK \<Rightarrow> 'a \<Rightarrow> ('b, 'u) AVLU_CALLBACK \<Rightarrow> 'b \<Rightarrow> addr option \<Rightarrow> addr list \<Rightarrow>
     'u world \<Rightarrow> (STATUS \<times> 'u world, 'u world) loop option"
where
  "walk_pre_in preRtn preArg inRtn inArg pNode nodeStack w =
    (if length nodeStack < 2 * AVLU_MAX_HEIGHT then
       (case walk_left preRtn preArg pNode nodeStack w of
          Return res \<Rightarrow> Some (Return res)
        | Exit (nodeStack', w') \<Rightarrow>
           (case nodeStack' of
              [] \<Rightarrow> Some (Exit w')
            | p # nodeStack'' \<Rightarrow>
               let right = right (fst w' p)
               in (case call inRtn p inArg w' of
                     (ERROR, w'') \<Rightarrow> Some (Return (ERROR, w''))
                   | (OK, w'') \<Rightarrow> walk_pre_in preRtn preArg inRtn inArg right nodeStack'' w'')))
     else Some (Exit w))"

text \<open>The loop \<open>while (ix > 0)\<close> of the post-order pass.\<close>

partial_function (option) walk_post ::
  "(addr \<Rightarrow> 'c \<Rightarrow> 'u world \<Rightarrow> STATUS \<times> 'u world) \<Rightarrow> 'c \<Rightarrow> (addr \<times> bool) list \<Rightarrow> 'u world \<Rightarrow>
     (STATUS \<times> 'u world, 'u world) loop option"
where
  "walk_post postRtn postArg nodeStack w =
    (case nodeStack of
       [] \<Rightarrow> Some (Exit w)
     | (p, visited) # nodeStack' \<Rightarrow>
        if \<not> visited then
          let stack1 = (p, True) # nodeStack'
          in if length stack1 + 2 \<ge> 2 * AVLU_MAX_HEIGHT then Some (Return (ERROR, w))
             else
               let stack2 = (case right (fst w p) of None \<Rightarrow> stack1 | Some r \<Rightarrow> (r, False) # stack1);
                   stack3 = (case left (fst w p) of None \<Rightarrow> stack2 | Some l \<Rightarrow> (l, False) # stack2)
               in walk_post postRtn postArg stack3 w
        else
          (case postRtn p postArg w of
             (ERROR, w') \<Rightarrow> Some (Return (ERROR, w'))
           | (OK, w') \<Rightarrow> walk_post postRtn postArg nodeStack' w'))"

definition avlUintTreeWalk ::
  "addr option \<Rightarrow> ('a, 'u) AVLU_CALLBACK \<Rightarrow> 'a \<Rightarrow> ('b, 'u) AVLU_CALLBACK \<Rightarrow> 'b \<Rightarrow>
     ('c, 'u) AVLU_CALLBACK \<Rightarrow> 'c \<Rightarrow> 'u world \<Rightarrow> (STATUS \<times> 'u world) option" where
  "avlUintTreeWalk r preRtn preArg inRtn inArg postRtn postArg w =
    (case r of
       None \<Rightarrow> Some (OK, w)
     | Some rt \<Rightarrow>
        (case (if preRtn \<noteq> None \<or> inRtn \<noteq> None
               then walk_pre_in preRtn preArg inRtn inArg (Some rt) [] w
               else Some (Exit w)) of
           None \<Rightarrow> None
         | Some (Return res) \<Rightarrow> Some res
         | Some (Exit w1) \<Rightarrow>
            (case postRtn of
               None \<Rightarrow> Some (OK, w1)
             | Some f \<Rightarrow>
                (case walk_post f postArg [(rt, False)] w1 of
                   None \<Rightarrow> None
                 | Some (Return res) \<Rightarrow> Some res
                 | Some (Exit w2) \<Rightarrow> Some (OK, w2)))))"

datatype tree = Leaf | Node tree addr UINT int tree

fun ptr :: "tree \<Rightarrow> addr option" where
  "ptr Leaf = None"
| "ptr (Node l a k h r) = Some a"

fun hgt :: "tree \<Rightarrow> int" where
  "hgt Leaf = 0"
| "hgt (Node l a k h r) = 1 + max (hgt l) (hgt r)"

fun inorder :: "tree \<Rightarrow> (addr \<times> UINT) list" where
  "inorder Leaf = []"
| "inorder (Node l a k h r) = inorder l @ (a, k) # inorder r"

definition addrs :: "tree \<Rightarrow> addr set" where
  "addrs t = fst ` set (inorder t)"

definition keys :: "tree \<Rightarrow> UINT set" where
  "keys t = snd ` set (inorder t)"

fun rep :: "(addr \<Rightarrow> AVLU_NODE) \<Rightarrow> tree \<Rightarrow> bool" where
  "rep m Leaf = True"
| "rep m (Node l a k h r) =
     (m a = \<lparr>key = k, left = ptr l, right = ptr r, height = h\<rparr> \<and> rep m l \<and> rep m r)"

fun avl :: "tree \<Rightarrow> bool" where
  "avl Leaf = True"
| "avl (Node l a k h r) =
     (avl l \<and> avl r \<and> hgt l - hgt r \<le> 1 \<and> hgt r - hgt l \<le> 1 \<and> h = 1 + max (hgt l) (hgt r))"

definition bst :: "tree \<Rightarrow> bool" where
  "bst t = sorted_wrt (<) (map snd (inorder t))"

definition owned :: "tree \<Rightarrow> bool" where
  "owned t = distinct (map fst (inorder t))"

datatype frame = LF addr UINT int tree | RF tree addr UINT int

fun plug :: "frame list \<Rightarrow> tree \<Rightarrow> tree" where
  "plug [] t = t"
| "plug (LF a k h r # c) t = plug c (Node t a k h r)"
| "plug (RF l a k h # c) t = plug c (Node l a k h t)"

fun hole_slot :: "frame list \<Rightarrow> slot" where
  "hole_slot [] = Root"
| "hole_slot (LF a k h r # c) = LeftOf a"
| "hole_slot (RF l a k h # c) = RightOf a"

fun slots :: "frame list \<Rightarrow> slot list" where
  "slots [] = []"
| "slots (f # c) = slots c @ [hole_slot c]"

fun before :: "frame list \<Rightarrow> (addr \<times> UINT) list" where
  "before [] = []"
| "before (LF a k h r # c) = before c"
| "before (RF l a k h # c) = before c @ inorder l @ [(a, k)]"

fun after :: "frame list \<Rightarrow> (addr \<times> UINT) list" where
  "after [] = []"
| "after (LF a k h r # c) = (a, k) # inorder r @ after c"
| "after (RF l a k h # c) = after c"

fun rep_path :: "(addr \<Rightarrow> AVLU_NODE) \<Rightarrow> frame list \<Rightarrow> addr option \<Rightarrow> addr option \<Rightarrow> bool" where
  "rep_path m [] p q = (p = q)"
| "rep_path m (LF a k h r # c) p q =
     (m a = \<lparr>key = k, left = p, right = ptr r, height = h\<rparr> \<and> rep m r \<and> rep_path m c (Some a) q)"
| "rep_path m (RF l a k h # c) p q =
     (m a = \<lparr>key = k, left = ptr l, right = p, height = h\<rparr> \<and> rep m l \<and> rep_path m c (Some a) q)"

fun ctx_ok :: "frame list \<Rightarrow> int \<Rightarrow> bool" where
  "ctx_ok [] h0 = True"
| "ctx_ok (LF a k h r # c) h0 =
     (avl r \<and> h0 - hgt r \<le> 1 \<and> hgt r - h0 \<le> 1 \<and> h = 1 + max h0 (hgt r) \<and> ctx_ok c h)"
| "ctx_ok (RF l a k h # c) h0 =
     (avl l \<and> h0 - hgt l \<le> 1 \<and> hgt l - h0 \<le> 1 \<and> h = 1 + max (hgt l) h0 \<and> ctx_ok c h)"

fun sh :: "tree \<Rightarrow> int" where
  "sh Leaf = 0"
| "sh (Node l a k h r) = h"

fun rebal_node :: "tree \<Rightarrow> (bool \<times> tree) option" where
  "rebal_node Leaf = None"
| "rebal_node (Node l a k h r) =
    (if sh r - sh l < - 1 then
       (case l of
          Leaf \<Rightarrow> None
        | Node ll la lk lh lr \<Rightarrow>
           if ll \<noteq> Leaf \<and> sh ll \<ge> sh lr
           then Some (False, Node ll la lk (sh lr + 2) (Node lr a k (sh lr + 1) r))
           else (case lr of
                   Leaf \<Rightarrow> None
                 | Node lrl lra lrk lrh lrr \<Rightarrow>
                    Some (False, Node (Node ll la lk (sh lr) lrl) lra lrk (sh lr + 1)
                                   (Node lrr a k (sh lr) r))))
     else if sh r - sh l > 1 then
       (case r of
          Leaf \<Rightarrow> None
        | Node rl ra rk rh rr \<Rightarrow>
           if rr \<noteq> Leaf \<and> sh rr \<ge> sh rl
           then Some (False, Node (Node l a k (sh rl + 1) rl) ra rk (sh rl + 2) rr)
           else (case rl of
                   Leaf \<Rightarrow> None
                 | Node rll rla rlk rlh rlr \<Rightarrow>
                    Some (False, Node (Node l a k (sh rl) rll) rla rlk (sh rl + 1)
                                   (Node rlr ra rk (sh rl) rr))))
     else
       let h' = (if sh r > sh l then sh r else sh l) + 1
       in if h = h' then Some (True, Node l a k h r) else Some (False, Node l a k h' r))"

fun slot_node :: "slot \<Rightarrow> addr set" where
  "slot_node Root = {}"
| "slot_node (LeftOf a) = {a}"
| "slot_node (RightOf a) = {a}"

subsection \<open>paths\<close>

definition rep_ctx :: "tree_state \<Rightarrow> frame list \<Rightarrow> addr option \<Rightarrow> bool" where
  "rep_ctx s c p = rep_path (mem s) c p (root s)"

definition caddrs :: "frame list \<Rightarrow> addr set" where
  "caddrs c = fst ` set (before c @ after c)"

definition owned_ctx :: "frame list \<Rightarrow> tree \<Rightarrow> bool" where
  "owned_ctx c t = distinct (map fst (before c @ inorder t @ after c))"

definition owned_path :: "frame list \<Rightarrow> bool" where
  "owned_path c = distinct (map fst (before c @ after c))"

definition bounds :: "UINT \<Rightarrow> frame list \<Rightarrow> bool" where
  "bounds k c = ((\<forall>x \<in> set (before c). snd x < k) \<and> (\<forall>x \<in> set (after c). k < snd x))"

definition tree_inv :: "tree_state \<Rightarrow> tree \<Rightarrow> bool" where
  "tree_inv s t = (rep (mem s) t \<and> root s = ptr t \<and> owned t \<and> bst t \<and> avl t)"

fun spine :: "tree \<Rightarrow> nat" where
  "spine Leaf = 0"
| "spine (Node l a k h r) = 1 + spine r"

fun del_depth :: "UINT \<Rightarrow> tree \<Rightarrow> nat" where
  "del_depth k Leaf = 0"
| "del_depth k (Node l a k' h r) =
     (if k = k' then 1 + (spine l - 1)
      else if k < k' then 1 + del_depth k l
      else 1 + del_depth k r)"

fun top :: "frame list \<Rightarrow> addr option \<Rightarrow> addr option" where
  "top [] p = p"
| "top (LF a k h r # c) p = top c (Some a)"
| "top (RF l a k h # c) p = top c (Some a)"

fun all_RF :: "frame list \<Rightarrow> bool" where
  "all_RF [] = True"
| "all_RF (LF a k h r # c) = False"
| "all_RF (RF l a k h # c) = all_RF c"

definition del_post ::
  "tree_state \<Rightarrow> UINT \<Rightarrow> frame list \<Rightarrow> tree \<Rightarrow>
     (addr option, slot \<times> addr option \<times> slot list \<times> nat) loop \<Rightarrow> bool" where
  "del_post s k c t R =
     (case R of
        Return res \<Rightarrow> res = None \<and> k \<notin> keys t
      | Exit (pp, pn, anc', n) \<Rightarrow>
          (n = AVLU_MAX_HEIGHT \<and> (k \<in> keys t \<longrightarrow> AVLU_MAX_HEIGHT < length c + del_depth k t)) \<or>
          (\<exists>c' l a h r. pp = hole_slot c' \<and> pn = Some a \<and> n = Suc (length c') \<and>
             take n anc' = slots c' @ [hole_slot c'] \<and> length anc' = AVLU_MAX_HEIGHT \<and>
             plug c' (Node l a k h r) = plug c t \<and> rep_ctx s c' (Some a) \<and>
             rep (mem s) (Node l a k h r) \<and>
             length c' + del_depth k (Node l a k h r) = length c + del_depth k t))"

definition pred_post ::
  "frame list \<Rightarrow> tree \<Rightarrow> slot \<times> addr \<times> slot list \<times> nat \<Rightarrow> bool" where
  "pred_post c t R =
     (case R of (pp, pn, anc', n) \<Rightarrow>
        (n = AVLU_MAX_HEIGHT \<and> AVLU_MAX_HEIGHT \<le> length c + (spine t - 1)) \<or>
        (\<exists>fs pl pa pk ph. n < AVLU_MAX_HEIGHT \<and> n = length c + length fs \<and>
           length fs = spine t - 1 \<and> pp = hole_slot (fs @ c) \<and> pn = pa \<and>
           take n anc' = slots (fs @ c) \<and> length anc' = AVLU_MAX_HEIGHT \<and>
           plug fs (Node pl pa pk ph Leaf) = t \<and> all_RF fs))"

fun lookup :: "tree \<Rightarrow> UINT \<Rightarrow> addr option" where
  "lookup Leaf k = None"
| "lookup (Node l a k' h r) k =
     (if k = k' then Some a else if k < k' then lookup l k else lookup r k)"

definition keeps_store :: "('a, 'u) AVLU_CALLBACK \<Rightarrow> bool" where
  "keeps_store rtn = (case rtn of None \<Rightarrow> True | Some f \<Rightarrow> \<forall>p a w. fst (snd (f p a w)) = fst w)"

fun walk1 ::
  "('a, 'u) AVLU_CALLBACK \<Rightarrow> 'a \<Rightarrow> ('b, 'u) AVLU_CALLBACK \<Rightarrow> 'b \<Rightarrow> tree \<Rightarrow> nat \<Rightarrow> 'u world \<Rightarrow>
     (STATUS \<times> 'u world, 'u world) loop"
where
  "walk1 preRtn preArg inRtn inArg Leaf d w = Exit w"
| "walk1 preRtn preArg inRtn inArg (Node l a k h r) d w =
    (case call preRtn a preArg w of
       (ERROR, w1) \<Rightarrow> Return (ERROR, w1)
     | (OK, w1) \<Rightarrow>
        if d \<ge> 2 * AVLU_MAX_HEIGHT then Return (ERROR, w1)
        else
          (case walk1 preRtn preArg inRtn inArg l (Suc d) w1 of
             Return res \<Rightarrow> Return res
           | Exit w2 \<Rightarrow>
              (case call inRtn a inArg w2 of
                 (ERROR, w3) \<Rightarrow> Return (ERROR, w3)
               | (OK, w3) \<Rightarrow> walk1 preRtn preArg inRtn inArg r d w3)))"

definition push :: "tree \<Rightarrow> (addr \<times> bool) list \<Rightarrow> (addr \<times> bool) list" where
  "push t stk = (case ptr t of None \<Rightarrow> stk | Some a \<Rightarrow> (a, False) # stk)"

fun walk2 ::
  "(addr \<Rightarrow> 'c \<Rightarrow> 'u world \<Rightarrow> STATUS \<times> 'u world) \<Rightarrow> 'c \<Rightarrow> tree \<Rightarrow> nat \<Rightarrow> 'u world \<Rightarrow>
     (STATUS \<times> 'u world, 'u world) loop"
where
  "walk2 postRtn postArg Leaf d w = Exit w"
| "walk2 postRtn postArg (Node l a k h r) d w =
    (if Suc d + 2 \<ge> 2 * AVLU_MAX_HEIGHT then Return (ERROR, w)
     else
       (case walk2 postRtn postArg l (if r = Leaf then Suc d else Suc (Suc d)) w of
          Return res \<Rightarrow> Return res
        | Exit w1 \<Rightarrow>
           (case walk2 postRtn postArg r (Suc d) w1 of
              Return res \<Rightarrow> Return res
            | Exit w2 \<Rightarrow>
               (case postRtn a postArg w2 of
                  (ERROR, w3) \<Rightarrow> Return (ERROR, w3)
                | (OK, w3) \<Rightarrow> Exit w3))))"

definition walk_pop ::
  "('a, 'u) AVLU_CALLBACK \<Rightarrow> 'a \<Rightarrow> ('b, 'u) AVLU_CALLBACK \<Rightarrow> 'b \<Rightarrow> addr list \<Rightarrow> 'u world \<Rightarrow>
     (STATUS \<times> 'u world, 'u world) loop option" where
  "walk_pop preRtn preArg inRtn inArg stk w =
    (case stk of
       [] \<Rightarrow> Some (Exit w)
     | p # stk' \<Rightarrow>
        (case call inRtn p inArg w of
           (ERROR, w') \<Rightarrow> Some (Return (ERROR, w'))
         | (OK, w') \<Rightarrow> walk_pre_in preRtn preArg inRtn inArg (right (fst w p)) stk' w'))"

definition walk_spec ::
  "('a, 'u) AVLU_CALLBACK \<Rightarrow> 'a \<Rightarrow> ('b, 'u) AVLU_CALLBACK \<Rightarrow> 'b \<Rightarrow> ('c, 'u) AVLU_CALLBACK \<Rightarrow> 'c \<Rightarrow>
     tree \<Rightarrow> 'u world \<Rightarrow> STATUS \<times> 'u world" where
  "walk_spec preRtn preArg inRtn inArg postRtn postArg t w =
    (if t = Leaf then (OK, w)
     else
       (case (if preRtn \<noteq> None \<or> inRtn \<noteq> None then walk1 preRtn preArg inRtn inArg t 0 w else Exit w) of
          Return res \<Rightarrow> res
        | Exit w1 \<Rightarrow>
           (case postRtn of
              None \<Rightarrow> (OK, w1)
            | Some f \<Rightarrow>
               (case walk2 f postArg t 0 w1 of Return res \<Rightarrow> res | Exit w2 \<Rightarrow> (OK, w2)))))"

text \<open>
  To say which callbacks a walk invokes, and in which order, a callback is wrapped so
  that every invocation appends an event to a log kept in the caller's state: which of
  the three routines was called, on which node, and the status it returned.
\<close>

datatype order = PreOrder | InOrder | PostOrder

datatype event = Event order addr STATUS

fun result :: "event \<Rightarrow> STATUS" where
  "result (Event ord p st) = st"

fun node :: "event \<Rightarrow> addr" where
  "node (Event ord p st) = p"

definition logged ::
  "order \<Rightarrow> (addr \<Rightarrow> 'a \<Rightarrow> 'u world \<Rightarrow> STATUS \<times> 'u world) \<Rightarrow>
     addr \<Rightarrow> 'a \<Rightarrow> ('u \<times> event list) world \<Rightarrow> STATUS \<times> ('u \<times> event list) world" where
  "logged ord f p arg w =
     (case w of (m, u, log) \<Rightarrow>
        (case f p arg (m, u) of (st, m', u') \<Rightarrow> (st, m', u', log @ [Event ord p st])))"

definition logged_cb :: "order \<Rightarrow> ('a, 'u) AVLU_CALLBACK \<Rightarrow> ('a, 'u \<times> event list) AVLU_CALLBACK" where
  "logged_cb ord rtn = map_option (logged ord) rtn"

definition ok_log :: "event list \<Rightarrow> bool" where
  "ok_log log = (\<forall>e \<in> set log. result e = OK)"

text \<open>What a loop of the walk leaves in the log: it goes on only while no callback failed.\<close>

fun fin :: "(STATUS \<times> ('u \<times> event list) world, ('u \<times> event list) world) loop \<Rightarrow> bool" where
  "fin (Return (st, w)) = (st = ERROR \<and> ok_log (butlast (snd (snd w))))"
| "fin (Exit w) = ok_log (snd (snd w))"

text \<open>A sequence of calls of avlUintInsert on one root pointer, all of which return OK.\<close>

fun insert_all :: "addr list \<Rightarrow> tree_state \<Rightarrow> tree_state option" where
  "insert_all [] s = Some s"
| "insert_all (n # ns) s =
    (case avlUintInsert s (Some Root) (Some n) of
       Some (OK, s') \<Rightarrow> insert_all ns s'
     | _ \<Rightarrow> None)"

text \<open>The number of nodes the descent of avlUintInsert visits for the key \<open>k\<close>.\<close>

fun ins_depth :: "UINT \<Rightarrow> tree \<Rightarrow> nat" where
  "ins_depth k Leaf = 0"
| "ins_depth k (Node l a k' h r) =
     Suc (if k = k' then 0 else if k < k' then ins_depth k l else ins_depth k r)"

text \<open>
  The AVL tree of height \<open>h\<close> with the fewest nodes: every left subtree is one level
  higher than its right sibling. \<open>fibt h b\<close> numbers its nodes in key order from \<open>b\<close>
  and uses the number both as the node's address and as its key; \<open>fsize h\<close> is its
  node count.
\<close>

fun fsize :: "nat \<Rightarrow> nat" where
  "fsize 0 = 0"
| "fsize (Suc 0) = 1"
| "fsize (Suc (Suc h)) = fsize (Suc h) + fsize h + 1"

fun fibt :: "nat \<Rightarrow> nat \<Rightarrow> tree" where
  "fibt 0 b = Leaf"
| "fibt (Suc 0) b = Node Leaf b (of_nat b) 1 Leaf"
| "fibt (Suc (Suc h)) b =
     Node (fibt (Suc h) b) (b + fsize (Suc h)) (of_nat (b + fsize (Suc h))) (int h + 2)
       (fibt h (b + fsize (Suc h) + 1))"

text \<open>The store that holds a tree: every node written at its address.\<close>

fun store_of :: "tree \<Rightarrow> (addr \<Rightarrow> AVLU_NODE) \<Rightarrow> (addr \<Rightarrow> AVLU_NODE)" where
  "store_of Leaf m = m"
| "store_of (Node l a k h r) m =
     (store_of r (store_of l m))(a := \<lparr>key = k, left = ptr l, right = ptr r, height = h\<rparr>)"

definition fib_state :: tree_state where
  "fib_state =
     \<lparr>mem = store_of (fibt AVLU_MAX_HEIGHT 1) (\<lambda>_. \<lparr>key = 0, left = None, right = None, height = 0\<rparr>),
      root = ptr (fibt AVLU_MAX_HEIGHT 1)\<rparr>"

fun kind :: "event \<Rightarrow> order" where
  "kind (Event ord p st) = ord"

text \<open>The nodes on which the routine of one kind was invoked, in the order of the invocations.\<close>

definition visits :: "order \<Rightarrow> event list \<Rightarrow> addr list" where
  "visits ord log = map node (filter (\<lambda>e. kind e = ord) log)"

text \<open>A callback that returns OK whatever it is given and leaves the nodes alone.\<close>

definition harmless :: "('a, 'u) AVLU_CALLBACK \<Rightarrow> bool" where
  "harmless rtn =
     (case rtn of
        None \<Rightarrow> True
      | Some f \<Rightarrow> \<forall>p a w. fst (f p a w) = OK \<and> fst (snd (f p a w)) = fst w)"

text \<open>A three-node tree in a store, and two nodes outside it, used to instantiate the theorems below.\<close>

definition ex_mem :: "addr \<Rightarrow> AVLU_NODE" where
  "ex_mem =
     (\<lambda>_. \<lparr>key = 0, left = None, right = None, height = 0\<rparr>)
     (1 := \<lparr>key = 10, left = None, right = None, height = 1\<rparr>,
      2 := \<lparr>key = 20, left = Some 1, right = Some 3, height = 2\<rparr>,
      3 := \<lparr>key = 30, left = None, right = None, height = 1\<rparr>,
      4 := \<lparr>key = 20, left = Some 1, right = None, height = 7\<rparr>,
      5 := \<lparr>key = 25, left = Some 2, right = Some 5, height = - 3\<rparr>)"

definition ex_state :: tree_state where
  "ex_state = \<lparr>mem = ex_mem, root = Some 2\<rparr>"

definition ex_tree :: tree where
  "ex_tree = Node (Node Leaf 1 10 1 Leaf) 2 20 2 (Node Leaf 3 30 1 Leaf)"


text \<open>
  Six small valid trees in one store, each one step away from a rotation, and four nodes
  outside them whose link and height fields hold arbitrary values.
\<close>

definition rot_mem :: "addr \<Rightarrow> AVLU_NODE" where
  "rot_mem =
     (\<lambda>_. \<lparr>key = 0, left = None, right = None, height = 0\<rparr>)
     (11 := \<lparr>key = 20, left = Some 12, right = None, height = 2\<rparr>,
      12 := \<lparr>key = 10, left = None, right = None, height = 1\<rparr>,
      13 := \<lparr>key = 5, left = Some 13, right = Some 11, height = 40\<rparr>,
      14 := \<lparr>key = 15, left = Some 12, right = None, height = - 1\<rparr>,
      21 := \<lparr>key = 10, left = None, right = Some 22, height = 2\<rparr>,
      22 := \<lparr>key = 20, left = None, right = None, height = 1\<rparr>,
      23 := \<lparr>key = 30, left = Some 21, right = Some 23, height = 0\<rparr>,
      24 := \<lparr>key = 15, left = None, right = Some 22, height = 5\<rparr>,
      31 := \<lparr>key = 20, left = Some 32, right = Some 34, height = 3\<rparr>,
      32 := \<lparr>key = 10, left = Some 33, right = None, height = 2\<rparr>,
      33 := \<lparr>key = 5, left = None, right = None, height = 1\<rparr>,
      34 := \<lparr>key = 30, left = None, right = None, height = 1\<rparr>,
      41 := \<lparr>key = 20, left = Some 42, right = Some 44, height = 3\<rparr>,
      42 := \<lparr>key = 10, left = None, right = Some 43, height = 2\<rparr>,
      43 := \<lparr>key = 15, left = None, right = None, height = 1\<rparr>,
      44 := \<lparr>key = 30, left = None, right = None, height = 1\<rparr>,
      51 := \<lparr>key = 20, left = Some 52, right = Some 53, height = 3\<rparr>,
      52 := \<lparr>key = 10, left = None, right = None, height = 1\<rparr>,
      53 := \<lparr>key = 30, left = None, right = Some 54, height = 2\<rparr>,
      54 := \<lparr>key = 40, left = None, right = None, height = 1\<rparr>,
      61 := \<lparr>key = 20, left = Some 62, right = Some 63, height = 3\<rparr>,
      62 := \<lparr>key = 10, left = None, right = None, height = 1\<rparr>,
      63 := \<lparr>key = 30, left = Some 64, right = None, height = 2\<rparr>,
      64 := \<lparr>key = 25, left = None, right = None, height = 1\<rparr>)"

definition rot_state :: "addr \<Rightarrow> tree_state" where
  "rot_state r = \<lparr>mem = rot_mem, root = Some r\<rparr>"

definition rot_tree :: "addr \<Rightarrow> tree" where
  "rot_tree r =
     (if r = 11 then Node (Node Leaf 12 10 1 Leaf) 11 20 2 Leaf
      else if r = 21 then Node Leaf 21 10 2 (Node Leaf 22 20 1 Leaf)
      else if r = 31 then Node (Node (Node Leaf 33 5 1 Leaf) 32 10 2 Leaf) 31 20 3 (Node Leaf 34 30 1 Leaf)
      else if r = 41 then Node (Node Leaf 42 10 2 (Node Leaf 43 15 1 Leaf)) 41 20 3 (Node Leaf 44 30 1 Leaf)
      else if r = 51 then Node (Node Leaf 52 10 1 Leaf) 51 20 3 (Node Leaf 53 30 2 (Node Leaf 54 40 1 Leaf))
      else if r = 61 then Node (Node Leaf 62 10 1 Leaf) 61 20 3 (Node (Node Leaf 64 25 1 Leaf) 63 30 2 Leaf)
      else Leaf)"

lemma inorder_plug: "inorder (plug c t) = before c @ inorder t @ after c"
  by (induction c t rule: plug.induct) auto

lemma hgt_nonneg: "0 \<le> hgt t"
  by (induction t) auto

lemma avl_plug: "avl (plug c t) = (avl t \<and> ctx_ok c (hgt t))"
  by (induction c t rule: plug.induct) auto

lemma rep_plug: "(rep m (plug c t) \<and> q = ptr (plug c t)) = (rep m t \<and> rep_path m c (ptr t) q)"
  by (induction c t rule: plug.induct) auto

lemma rep_agree: "rep m t \<Longrightarrow> (\<forall>x \<in> addrs t. m' x = m x) \<Longrightarrow> rep m' t"
  by (induction t) (auto simp: addrs_def)

lemma rep_upd [simp]: "a \<notin> addrs t \<Longrightarrow> rep (m(a := v)) t = rep m t"
  by (induction t) (auto simp: addrs_def)

lemma height_of_rep: "rep (mem s) t \<Longrightarrow> height_of s (ptr t) = sh t"
  by (cases t) (auto simp: height_of_def)

lemma slot_set_same: "slot_get s pp = p \<Longrightarrow> slot_set s pp p = s"
  by (cases pp) (auto simp: set_left_def set_right_def)

lemma cond_rep:
  "rep (mem s) t \<Longrightarrow>
     (case ptr t of None \<Rightarrow> False | Some p \<Rightarrow> x \<le> height (mem s p)) = (t \<noteq> Leaf \<and> x \<le> sh t)"
  by (cases t) auto

lemma addrs_simps [simp]:
  "addrs Leaf = {}"
  "addrs (Node l a k h r) = insert a (addrs l \<union> addrs r)"
  by (auto simp: addrs_def)

lemma owned_Node [simp]:
  "owned (Node l a k h r) =
     (owned l \<and> owned r \<and> a \<notin> addrs l \<and> a \<notin> addrs r \<and> addrs l \<inter> addrs r = {})"
  by (auto simp: owned_def addrs_def)

lemma owned_Leaf [simp]: "owned Leaf"
  by (simp add: owned_def)

lemmas upd_defs = set_left_def set_right_def set_height_def

lemma height_of_simps [simp]:
  "height_of s None = 0"
  "height_of s (Some a) = height (mem s a)"
  by (simp_all add: height_of_def)

lemma rebalance_body_sim:
  assumes "rep (mem s) t" "owned t" "slot_get s pp = ptr t"
    and "rebal_node t = Some (b, t')"
  shows "\<exists>s1. rebalance_body pp s = Some (b, slot_set s1 pp (ptr t')) \<and> root s1 = root s \<and>
           (\<forall>x. x \<notin> addrs t \<longrightarrow> mem s1 x = mem s x) \<and> rep (mem s1) t'"
proof (cases t)
  case Leaf
  with assms show ?thesis by simp
next
  case (Node l a k h r)
  consider (L) "sh r - sh l < - 1" | (R) "\<not> sh r - sh l < - 1" "sh r - sh l > 1"
    | (N) "\<not> sh r - sh l < - 1" "\<not> sh r - sh l > 1" by linarith
  then show ?thesis
  proof cases
    case L
    then obtain ll la lk lh lr where l: "l = Node ll la lk lh lr"
      using assms(4) unfolding Node by (cases l) auto
    show ?thesis
    proof (cases "ll \<noteq> Leaf \<and> sh ll \<ge> sh lr")
      case True
      show ?thesis
        using assms L True unfolding Node l
        apply (clarsimp simp: rebalance_body_def Let_def height_of_rep cond_rep)
        apply (rule exI, rule conjI, rule refl)
        apply (auto simp: upd_defs)
        done
    next
      case False
      then obtain lrl lra lrk lrh lrr where lr: "lr = Node lrl lra lrk lrh lrr"
        using assms(4) L unfolding Node l by (cases lr) auto
      from assms(4) L False have bt: "\<not> b" "t' = Node (Node ll la lk lrh lrl) lra lrk (lrh + 1) (Node lrr a k lrh r)"
        unfolding Node l lr by auto
      from False assms(1) have c: "\<not> (case ptr ll of None \<Rightarrow> False | Some llp \<Rightarrow> height (mem s llp) \<ge> lrh)"
        unfolding Node l lr by (subst cond_rep) auto
      show ?thesis
        using assms(1-3) L c unfolding Node l lr bt
        apply (clarsimp simp: rebalance_body_def Let_def bt height_of_rep cong: option.case_cong)
        apply (rule exI, rule conjI, rule refl)
        apply (auto simp: upd_defs)
        done
    qed
  next
    case R
    then obtain rl ra rk rh rr where r: "r = Node rl ra rk rh rr"
      using assms(4) unfolding Node by (cases r) auto
    show ?thesis
    proof (cases "rr \<noteq> Leaf \<and> sh rr \<ge> sh rl")
      case True
      show ?thesis
        using assms R True unfolding Node r
        apply (clarsimp simp: rebalance_body_def Let_def height_of_rep cond_rep)
        apply (rule exI, rule conjI, rule refl)
        apply (auto simp: upd_defs)
        done
    next
      case False
      then obtain rll rla rlk rlh rlr where rl: "rl = Node rll rla rlk rlh rlr"
        using assms(4) R unfolding Node r by (cases rl) auto
      from assms(4) R False have bt: "\<not> b" "t' = Node (Node l a k rlh rll) rla rlk (rlh + 1) (Node rlr ra rk rlh rr)"
        unfolding Node r rl by auto
      from False assms(1) have c: "\<not> (case ptr rr of None \<Rightarrow> False | Some rrp \<Rightarrow> height (mem s rrp) \<ge> rlh)"
        unfolding Node r rl by (subst cond_rep) auto
      show ?thesis
        using assms(1-3) R c unfolding Node r rl bt
        apply (clarsimp simp: rebalance_body_def Let_def bt height_of_rep cong: option.case_cong)
        apply (rule exI, rule conjI, rule refl)
        apply (auto simp: upd_defs)
        done
    qed
  next
    case N
    show ?thesis
    proof (cases b)
      case True
      with assms N have "t' = t" "rebalance_body pp s = Some (True, s)"
        unfolding Node
        by (auto simp: rebalance_body_def Let_def height_of_rep split: if_splits)
      with assms show ?thesis
        by (auto simp: True slot_set_same intro!: exI[of _ s])
    next
      case False
      have g: "slot_get (set_height s a hh) pp = Some a" for hh
        using assms(3) unfolding Node by (cases pp) (auto simp: upd_defs)
      have e: "slot_set (set_height s a hh) pp (Some a) = set_height s a hh" for hh
        by (rule slot_set_same [OF g])
      from False assms N show ?thesis
        unfolding Node
        apply (clarsimp simp: rebalance_body_def Let_def height_of_rep split: if_splits)
         apply (rule exI[of _ "set_height s a (sh r + 1)"])
         apply (simp add: e)
         apply (simp add: upd_defs)
        apply (rule exI[of _ "set_height s a (sh l + 1)"])
        apply (simp add: e)
        apply (simp add: upd_defs)
        done
    qed
  qed
qed

lemma avl_sh: "avl t \<Longrightarrow> sh t = hgt t"
  by (cases t) auto

lemma hgt_Leaf_iff: "(hgt t = 0) = (t = Leaf)"
proof (cases t)
  case (Node l a k h r)
  with hgt_nonneg[of l] hgt_nonneg[of r] show ?thesis by simp
qed simp

text \<open>Left-heavy by two: single or double right rotation.\<close>

lemma rebal_node_left_heavy:
  assumes "avl l" "avl r" "hgt l = hgt r + 2"
  shows "\<exists>t'. rebal_node (Node l a k h r) = Some (False, t') \<and> avl t' \<and>
           (hgt t' = hgt r + 2 \<or> hgt t' = hgt r + 3) \<and>
           inorder t' = inorder (Node l a k h r)"
proof -
  from assms hgt_nonneg[of r] obtain ll la lk lh lr where l: "l = Node ll la lk lh lr"
    by (cases l) auto
  from assms have L: "sh r - sh l < - 1" by (simp add: avl_sh)
  from assms l have al: "avl ll" "avl lr" "hgt ll - hgt lr \<le> 1" "hgt lr - hgt ll \<le> 1"
    "lh = 1 + max (hgt ll) (hgt lr)" "max (hgt ll) (hgt lr) = hgt r + 1"
    by auto
  show ?thesis
  proof (cases "ll \<noteq> Leaf \<and> sh ll \<ge> sh lr")
    case True
    define T where "T = Node ll la lk (sh lr + 2) (Node lr a k (sh lr + 1) r)"
    from True al have hll: "hgt ll = hgt r + 1" "hgt lr \<le> hgt ll" by (auto simp: avl_sh)
    have 1: "rebal_node (Node l a k h r) = Some (False, T)"
      using L True unfolding l T_def by simp
    have 2: "avl T"
      using al hll assms(2) unfolding T_def by (simp add: avl_sh max_def)
    have 3: "hgt T = hgt r + 2 \<or> hgt T = hgt r + 3"
      using al hll unfolding T_def by (simp add: max_def) arith
    have 4: "inorder T = inorder (Node l a k h r)"
      unfolding l T_def by simp
    from 1 2 3 4 show ?thesis by blast
  next
    case False
    with al hgt_nonneg[of lr] hgt_nonneg[of r] have hll: "hgt lr = hgt r + 1" "hgt ll = hgt r"
      by (auto simp: avl_sh hgt_Leaf_iff[symmetric] max_def split: if_splits)
    with hgt_nonneg[of r] obtain lrl lra lrk lrh lrr where lr: "lr = Node lrl lra lrk lrh lrr"
      by (cases lr) auto
    from al lr hll have alr: "avl lrl" "avl lrr" "hgt lrl - hgt lrr \<le> 1" "hgt lrr - hgt lrl \<le> 1"
      "lrh = hgt r + 1" "max (hgt lrl) (hgt lrr) = hgt r"
      by auto
    define T where "T = Node (Node ll la lk lrh lrl) lra lrk (lrh + 1) (Node lrr a k lrh r)"
    have 1: "rebal_node (Node l a k h r) = Some (False, T)"
      using L False unfolding l lr T_def by auto
    have 2: "avl T"
      using al alr hll assms(2) unfolding T_def by (simp add: max_def split: if_splits)
    have 3: "hgt T = hgt r + 2"
      using al alr hll unfolding T_def by (simp add: max_def split: if_splits)
    have 4: "inorder T = inorder (Node l a k h r)"
      unfolding l lr T_def by simp
    from 1 2 3 4 show ?thesis by blast
  qed
qed

lemma rebal_node_right_heavy:
  assumes "avl l" "avl r" "hgt r = hgt l + 2"
  shows "\<exists>t'. rebal_node (Node l a k h r) = Some (False, t') \<and> avl t' \<and>
           (hgt t' = hgt l + 2 \<or> hgt t' = hgt l + 3) \<and>
           inorder t' = inorder (Node l a k h r)"
proof -
  from assms hgt_nonneg[of l] obtain rl ra rk rh rr where r: "r = Node rl ra rk rh rr"
    by (cases r) auto
  from assms have R: "\<not> sh r - sh l < - 1" "sh r - sh l > 1" by (simp_all add: avl_sh)
  from assms r have ar: "avl rl" "avl rr" "hgt rl - hgt rr \<le> 1" "hgt rr - hgt rl \<le> 1"
    "rh = 1 + max (hgt rl) (hgt rr)" "max (hgt rl) (hgt rr) = hgt l + 1"
    by auto
  show ?thesis
  proof (cases "rr \<noteq> Leaf \<and> sh rr \<ge> sh rl")
    case True
    define T where "T = Node (Node l a k (sh rl + 1) rl) ra rk (sh rl + 2) rr"
    from True ar have hrr: "hgt rr = hgt l + 1" "hgt rl \<le> hgt rr" by (auto simp: avl_sh)
    have 1: "rebal_node (Node l a k h r) = Some (False, T)"
      using R True unfolding r T_def by simp
    have 2: "avl T"
      using ar hrr assms(1) unfolding T_def by (simp add: avl_sh max_def)
    have 3: "hgt T = hgt l + 2 \<or> hgt T = hgt l + 3"
      using ar hrr unfolding T_def by (simp add: max_def; arith?)
    have 4: "inorder T = inorder (Node l a k h r)"
      unfolding r T_def by simp
    from 1 2 3 4 show ?thesis by blast
  next
    case False
    with ar hgt_nonneg[of rl] hgt_nonneg[of l] have hrr: "hgt rl = hgt l + 1" "hgt rr = hgt l"
      by (auto simp: avl_sh hgt_Leaf_iff[symmetric] max_def split: if_splits)
    with hgt_nonneg[of l] obtain rll rla rlk rlh rlr where rl: "rl = Node rll rla rlk rlh rlr"
      by (cases rl) auto
    from ar rl hrr have arl: "avl rll" "avl rlr" "hgt rll - hgt rlr \<le> 1" "hgt rlr - hgt rll \<le> 1"
      "rlh = hgt l + 1" "max (hgt rll) (hgt rlr) = hgt l"
      by auto
    define T where "T = Node (Node l a k rlh rll) rla rlk (rlh + 1) (Node rlr ra rk rlh rr)"
    have 1: "rebal_node (Node l a k h r) = Some (False, T)"
      using R False unfolding r rl T_def by auto
    have 2: "avl T"
      using ar arl hrr assms(1) unfolding T_def by (simp add: max_def split: if_splits)
    have 3: "hgt T = hgt l + 2"
      using ar arl hrr unfolding T_def by (simp add: max_def split: if_splits)
    have 4: "inorder T = inorder (Node l a k h r)"
      unfolding r rl T_def by simp
    from 1 2 3 4 show ?thesis by blast
  qed
qed

lemma rebal_node_balanced:
  assumes "avl l" "avl r" "hgt l - hgt r \<le> 1" "hgt r - hgt l \<le> 1"
  shows "rebal_node (Node l a k h r) =
           Some (h = 1 + max (hgt l) (hgt r), Node l a k (1 + max (hgt l) (hgt r)) r)"
  using assms by (auto simp: avl_sh Let_def max_def)

lemma rebal_node_step:
  assumes "avl l" "avl r"
    and "(h0 - hgt r \<le> 1 \<and> hgt r - h0 \<le> 1 \<and> hgt l - h0 \<le> 1 \<and> h0 - hgt l \<le> 1 \<and>
            h = 1 + max h0 (hgt r)) \<or>
         (h0 - hgt l \<le> 1 \<and> hgt l - h0 \<le> 1 \<and> hgt r - h0 \<le> 1 \<and> h0 - hgt r \<le> 1 \<and>
            h = 1 + max (hgt l) h0)"
  shows "\<exists>b t'. rebal_node (Node l a k h r) = Some (b, t') \<and> avl t' \<and> hgt t' - h \<le> 1 \<and>
           h - hgt t' \<le> 1 \<and> (b \<longrightarrow> hgt t' = h) \<and> inorder t' = inorder (Node l a k h r) \<and>
           hgt t' \<le> 1 + max (hgt l) (hgt r)"
proof -
  consider (L) "hgt l = hgt r + 2" | (R) "hgt r = hgt l + 2"
    | (N) "hgt l - hgt r \<le> 1" "hgt r - hgt l \<le> 1"
    using assms(3) by arith
  then show ?thesis
  proof cases
    case L
    from rebal_node_left_heavy[OF assms(1,2) L, of a k h] obtain t' where
      t': "rebal_node (Node l a k h r) = Some (False, t')" "avl t'"
        "hgt t' = hgt r + 2 \<or> hgt t' = hgt r + 3" "inorder t' = inorder (Node l a k h r)"
      by blast
    from L assms(3) have "h = hgt r + 2 \<or> h = hgt r + 3" by arith
    with t' L show ?thesis by (intro exI[of _ False] exI[of _ t']) auto
  next
    case R
    from rebal_node_right_heavy[OF assms(1,2) R, of a k h] obtain t' where
      t': "rebal_node (Node l a k h r) = Some (False, t')" "avl t'"
        "hgt t' = hgt l + 2 \<or> hgt t' = hgt l + 3" "inorder t' = inorder (Node l a k h r)"
      by blast
    from R assms(3) have "h = hgt l + 2 \<or> h = hgt l + 3" by arith
    with t' R show ?thesis by (intro exI[of _ False] exI[of _ t']) auto
  next
    case N
    have "avl (Node l a k (1 + max (hgt l) (hgt r)) r)" using assms(1,2) N by simp
    moreover have "1 + max (hgt l) (hgt r) - h \<le> 1" "h - (1 + max (hgt l) (hgt r)) \<le> 1"
      using assms(3) by arith+
    ultimately show ?thesis
      unfolding rebal_node_balanced[OF assms(1,2) N]
      by (intro exI[of _ "h = 1 + max (hgt l) (hgt r)"] exI[of _ "Node l a k (1 + max (hgt l) (hgt r)) r"]) auto
  qed
qed

lemma caddrs_simps [simp]:
  "caddrs [] = {}"
  "caddrs (LF a k h r # c) = insert a (addrs r \<union> caddrs c)"
  "caddrs (RF l a k h # c) = insert a (addrs l \<union> caddrs c)"
  by (auto simp: caddrs_def addrs_def)

lemma rep_path_agree:
  "rep_path m c p q \<Longrightarrow> (\<forall>x \<in> caddrs c. m' x = m x) \<Longrightarrow> rep_path m' c p q"
  by (induction m c p q rule: rep_path.induct) (auto intro: rep_agree)

lemma slot_get_hole: "rep_ctx s c p \<Longrightarrow> slot_get s (hole_slot c) = p"
  by (cases c rule: hole_slot.cases) (auto simp: rep_ctx_def)

lemma slot_node_hole: "slot_node (hole_slot c) \<subseteq> caddrs c"
  by (cases c rule: hole_slot.cases) auto

lemma owned_ctx_simps:
  "owned_ctx [] t = owned t"
  "owned_ctx (LF a k h r # c) t = owned_ctx c (Node t a k h r)"
  "owned_ctx (RF l a k h # c) t = owned_ctx c (Node l a k h t)"
  by (auto simp: owned_ctx_def owned_def)

lemma owned_ctx_D:
  "owned_ctx c t \<Longrightarrow> owned t \<and> addrs t \<inter> caddrs c = {} \<and> distinct (map fst (before c @ after c))"
  by (auto simp: owned_ctx_def owned_def addrs_def caddrs_def)

lemma rep_slot_set: "slot_node pp \<inter> addrs t = {} \<Longrightarrow> rep (mem (slot_set s pp p)) t = rep (mem s) t"
  by (cases pp) (auto simp: upd_defs)

lemma rep_path_upd [simp]: "a \<notin> caddrs c \<Longrightarrow> rep_path (m(a := v)) c p q = rep_path m c p q"
  by (induction m c p q rule: rep_path.induct) auto

lemma owned_path_simps [simp]:
  "owned_path []"
  "owned_path (LF a k h r # c) =
     (a \<notin> addrs r \<and> a \<notin> caddrs c \<and> owned r \<and> addrs r \<inter> caddrs c = {} \<and> owned_path c)"
  "owned_path (RF l a k h # c) =
     (a \<notin> addrs l \<and> a \<notin> caddrs c \<and> owned l \<and> addrs l \<inter> caddrs c = {} \<and> owned_path c)"
  by (auto simp: owned_path_def caddrs_def addrs_def owned_def)

lemma owned_ctx_iff:
  "owned_ctx c t = (owned t \<and> owned_path c \<and> addrs t \<inter> caddrs c = {})"
  by (auto simp: owned_ctx_def owned_path_def caddrs_def addrs_def owned_def)

lemma rep_ctx_slot_set:
  "rep_ctx s c p \<Longrightarrow> owned_path c \<Longrightarrow> rep_ctx (slot_set s (hole_slot c) p') c p'"
  by (cases c rule: hole_slot.cases) (auto simp: rep_ctx_def upd_defs)

lemma rep_ctx_agree:
  "rep_ctx s c p \<Longrightarrow> root s' = root s \<Longrightarrow> (\<forall>x \<in> caddrs c. mem s' x = mem s x) \<Longrightarrow> rep_ctx s' c p"
  unfolding rep_ctx_def by (auto intro: rep_path_agree)

lemma take_Suc_snoc:
  "take (Suc n) xs = ys @ [y] \<Longrightarrow> length ys = n \<Longrightarrow> xs ! n = y \<and> take n xs = ys"
  by (metis append_eq_conv_conj length_append_singleton length_take
      lessI nth_append_length nth_take take_take)

lemma length_slots [simp]: "length (slots c) = length c"
  by (induction c) auto

lemma hgt_plug_mono: "hgt t1 \<le> hgt t2 \<Longrightarrow> hgt (plug c t1) \<le> hgt (plug c t2)"
proof (induction c arbitrary: t1 t2)
  case (Cons f c)
  show ?case by (cases f) (use Cons in \<open>auto intro!: Cons.IH\<close>)
qed simp

lemma addrs_plug: "addrs (plug c t) = addrs t \<union> caddrs c"
  by (auto simp: addrs_def caddrs_def inorder_plug)

lemma mem_slot_set: "x \<notin> slot_node pp \<Longrightarrow> mem (slot_set s pp p) x = mem s x"
  by (cases pp) (auto simp: upd_defs)

lemma root_slot_set: "pp \<noteq> Root \<Longrightarrow> root (slot_set s pp p) = root s"
  by (cases pp) (auto simp: upd_defs)

lemma rebalance_loop:
  assumes "rep (mem s) t" "rep_ctx s c (ptr t)" "owned_ctx c t"
    and "take (length c) anc = slots c"
    and "avl t" "ctx_ok c h0" "hgt t - h0 \<le> 1" "h0 - hgt t \<le> 1"
  shows "\<exists>s' t'. avlUintRebalance anc (length c) s = Some s' \<and> rep (mem s') t' \<and>
           root s' = ptr t' \<and> avl t' \<and> inorder t' = inorder (plug c t) \<and>
           (\<forall>x. x \<notin> addrs (plug c t) \<longrightarrow> mem s' x = mem s x) \<and> hgt t' \<le> hgt (plug c t)"
  using assms
proof (induction c arbitrary: s t h0)
  case Nil
  then show ?case by (auto simp: rep_ctx_def)
next
  case (Cons f c)
  obtain l a k h r where f: "(f = LF a k h r \<and> l = t) \<or> (f = RF l a k h \<and> r = t)"
    by (cases f) auto
  define node where "node = Node l a k h r"
  have plug: "plug (f # c) t = plug c node" using f by (auto simp: node_def)
  have rep_node: "rep (mem s) node" and ctx: "rep_ctx s c (Some a)"
    using f Cons.prems(1,2) by (auto simp: node_def rep_ctx_def)
  have own: "owned_ctx c node"
    using f Cons.prems(3) by (auto simp: node_def owned_ctx_simps)
  then have own': "owned node" "owned_path c" "addrs node \<inter> caddrs c = {}"
    by (simp_all add: owned_ctx_iff)
  have anc: "anc ! length c = hole_slot c" "take (length c) anc = slots c"
    using take_Suc_snoc[of "length c" anc "slots c" "hole_slot c"] Cons.prems(4) by auto
  have "avl l" "avl r" "ctx_ok c h"
    using f Cons.prems(5,6) by auto
  moreover have "(h0 - hgt r \<le> 1 \<and> hgt r - h0 \<le> 1 \<and> hgt l - h0 \<le> 1 \<and> h0 - hgt l \<le> 1 \<and>
            h = 1 + max h0 (hgt r)) \<or>
         (h0 - hgt l \<le> 1 \<and> hgt l - h0 \<le> 1 \<and> hgt r - h0 \<le> 1 \<and> h0 - hgt r \<le> 1 \<and>
            h = 1 + max (hgt l) h0)"
    using f Cons.prems(6,7,8) by auto
  ultimately obtain b t1 where
    t1: "rebal_node node = Some (b, t1)" "avl t1" "hgt t1 - h \<le> 1" "h - hgt t1 \<le> 1"
      "b \<longrightarrow> hgt t1 = h" "inorder t1 = inorder node" "hgt t1 \<le> hgt node"
    using rebal_node_step[of l r h0 h a k] unfolding node_def by auto
  have "slot_get s (hole_slot c) = ptr node"
    using slot_get_hole[OF ctx] by (simp add: node_def)
  from rebalance_body_sim[OF rep_node own'(1) this t1(1)] obtain s1 where
    s1: "rebalance_body (hole_slot c) s = Some (b, slot_set s1 (hole_slot c) (ptr t1))"
      "root s1 = root s" "\<forall>x. x \<notin> addrs node \<longrightarrow> mem s1 x = mem s x" "rep (mem s1) t1"
    by blast
  define s2 where "s2 = slot_set s1 (hole_slot c) (ptr t1)"
  have addrs1: "addrs t1 = addrs node" using t1(6) by (simp add: addrs_def)
  have "rep_ctx s1 c (Some a)"
    using ctx s1(2,3) own'(3) by (auto intro!: rep_ctx_agree[of s])
  then have ctx2: "rep_ctx s2 c (ptr t1)"
    unfolding s2_def by (rule rep_ctx_slot_set) (rule own'(2))
  have rep2: "rep (mem s2) t1"
    unfolding s2_def using s1(4) slot_node_hole[of c] own'(3) addrs1
    by (subst rep_slot_set) auto
  have own2: "owned_ctx c t1"
    using own t1(6) by (simp add: owned_ctx_def)
  have frame2: "\<forall>x. x \<notin> addrs (plug c node) \<longrightarrow> mem s2 x = mem s x"
  proof (intro allI impI)
    fix x assume "x \<notin> addrs (plug c node)"
    then have x: "x \<notin> addrs node" "x \<notin> slot_node (hole_slot c)"
      using slot_node_hole[of c] by (auto simp: addrs_plug)
    show "mem s2 x = mem s x"
      unfolding s2_def using s1(3) x by (simp add: mem_slot_set)
  qed
  show ?case
  proof (cases b)
    case True
    have "avlUintRebalance anc (length (f # c)) s = Some s2"
      using s1(1) True anc by (simp add: s2_def)
    moreover have "rep (mem s2) (plug c t1) \<and> root s2 = ptr (plug c t1)"
      using rep2 ctx2 by (simp add: rep_plug rep_ctx_def)
    moreover have "avl (plug c t1)"
      using t1 True \<open>ctx_ok c h\<close> by (simp add: avl_plug)
    moreover have "inorder (plug c t1) = inorder (plug (f # c) t)"
      using t1(6) by (simp add: plug inorder_plug)
    moreover have "hgt (plug c t1) \<le> hgt (plug (f # c) t)"
      using t1(7) by (simp add: plug hgt_plug_mono)
    ultimately show ?thesis using frame2 plug by auto
  next
    case False
    have step: "avlUintRebalance anc (length (f # c)) s = avlUintRebalance anc (length c) s2"
      using s1(1) False anc by (simp add: s2_def)
    from Cons.IH[OF rep2 ctx2 own2 anc(2) t1(2) \<open>ctx_ok c h\<close> t1(3,4)] obtain s' t' where
      r: "avlUintRebalance anc (length c) s2 = Some s'" "rep (mem s') t'" "root s' = ptr t'" "avl t'"
        "inorder t' = inorder (plug c t1)" "\<forall>x. x \<notin> addrs (plug c t1) \<longrightarrow> mem s' x = mem s2 x"
        "hgt t' \<le> hgt (plug c t1)"
      by blast
    have "inorder (plug c t1) = inorder (plug c node)"
      using t1(6) by (simp add: inorder_plug)
    moreover then have "addrs (plug c t1) = addrs (plug c node)" by (simp add: addrs_def)
    moreover have "hgt (plug c t1) \<le> hgt (plug c node)"
      using t1(7) by (simp add: hgt_plug_mono)
    ultimately show ?thesis
      using r frame2 unfolding step plug by (intro exI[of _ s'] exI[of _ t']) auto
  qed
qed

lemma bounds_simps [simp]:
  "bounds k []"
  "bounds k (LF a k' h r # c) = (k < k' \<and> (\<forall>x \<in> set (inorder r). k < snd x) \<and> bounds k c)"
  "bounds k (RF l a k' h # c) = (k' < k \<and> (\<forall>x \<in> set (inorder l). snd x < k) \<and> bounds k c)"
  by (auto simp: bounds_def)

lemma bst_Leaf [simp]: "bst Leaf"
  by (simp add: bst_def)

lemma bst_Node [simp]:
  "bst (Node l a k h r) =
     (bst l \<and> bst r \<and> (\<forall>x \<in> set (inorder l). snd x < k) \<and> (\<forall>x \<in> set (inorder r). k < snd x))"
  apply (auto simp: bst_def sorted_wrt_append)
  subgoal for a b aa ba
    by (rule order.strict_trans[of b k ba]) force+
  done

lemma keys_simps [simp]:
  "keys Leaf = {}"
  "keys (Node l a k h r) = insert k (keys l \<union> keys r)"
  by (auto simp: keys_def)

lemma take_Suc_update: "n < length xs \<Longrightarrow> take (Suc n) (xs[n := x]) = take n xs @ [x]"
  by (simp add: take_Suc_conv_app_nth)

lemma slots_length_le: "take (length c) anc = slots c \<Longrightarrow> length c \<le> length anc"
  by (drule arg_cong[where f = length]) simp

lemma insert_loop_sim:
  assumes "rep (mem s) t" "rep_ctx s c (ptr t)" "take (length c) anc = slots c"
    "length anc = AVLU_MAX_HEIGHT" "bst t" "bounds k c"
  shows "case insert_loop s k (hole_slot c) anc (length c) of
           Return st \<Rightarrow> st = ERROR \<and> k \<in> keys t
         | Exit (pp, anc', n) \<Rightarrow>
             n = AVLU_MAX_HEIGHT \<or>
             (\<exists>c'. pp = hole_slot c' \<and> n = length c' \<and> n < AVLU_MAX_HEIGHT \<and>
                take n anc' = slots c' \<and> plug c' Leaf = plug c t \<and> rep_ctx s c' None \<and> k \<notin> keys t \<and> bounds k c')"
  using assms
proof (induction t arbitrary: c anc)
  case Leaf
  then show ?case
    by (subst insert_loop.simps) (auto simp: slot_get_hole)
next
  case (Node l a k' h r)
  have len: "length c \<le> AVLU_MAX_HEIGHT"
    using slots_length_le[OF Node.prems(3)] Node.prems(4) by simp
  show ?case
  proof (cases "length c < AVLU_MAX_HEIGHT")
    case False
    with len show ?thesis by (subst insert_loop.simps) auto
  next
    case True
    have get: "slot_get s (hole_slot c) = Some a"
      using slot_get_hole[OF Node.prems(2)] by simp
    have key: "key (mem s a) = k'" using Node.prems(1) by simp
    let ?anc = "anc[length c := hole_slot c]"
    have anc': "take (length (f # c)) ?anc = slots (f # c)" "length ?anc = AVLU_MAX_HEIGHT" for f
      using True Node.prems(3,4) by (simp_all add: take_Suc_update)
    consider (eq) "k = k'" | (lt) "k < k'" | (gt) "k' < k" by (metis linorder_neqE)
    then show ?thesis
    proof cases
      case eq
      then show ?thesis using True get key by (subst insert_loop.simps) auto
    next
      case lt
      let ?c = "LF a k' h r # c"
      have 1: "rep (mem s) l" and 2: "rep_ctx s ?c (ptr l)"
        using Node.prems(1,2) by (auto simp: rep_ctx_def)
      have 3: "bst l" "bounds k ?c" using Node.prems(5,6) lt by auto
      have nk: "k \<notin> keys r" using Node.prems(5) lt by (auto simp: keys_def)
      from Node.IH(1)[OF 1 2 anc'(1) anc'(2) 3]
      show ?thesis
        using True get key lt nk
        by (subst insert_loop.simps) (auto split: loop.splits)
    next
      case gt
      let ?c = "RF l a k' h # c"
      have 1: "rep (mem s) r" and 2: "rep_ctx s ?c (ptr r)"
        using Node.prems(1,2) by (auto simp: rep_ctx_def)
      have 3: "bst r" "bounds k ?c" using Node.prems(5,6) gt by auto
      have nk: "k \<notin> keys l" using Node.prems(5) gt by (auto simp: keys_def)
      from Node.IH(2)[OF 1 2 anc'(1) anc'(2) 3]
      show ?thesis
        using True get key gt nk
        by (subst insert_loop.simps) (auto split: loop.splits)
    qed
  qed
qed

lemma rep_key: "rep m t \<Longrightarrow> (a, k) \<in> set (inorder t) \<Longrightarrow> key (m a) = k"
  by (induction t) auto

lemma length_ancestor_init [simp]: "length ancestor_init = AVLU_MAX_HEIGHT"
  by (simp add: ancestor_init_def)

lemma new_leaf_mem:
  "mem (set_height (set_right (set_left s n None) n None) n 1) =
     (mem s)(n := \<lparr>key = key (mem s n), left = None, right = None, height = 1\<rparr>)"
  "root (set_height (set_right (set_left s n None) n None) n 1) = root s"
  by (cases "mem s n"; simp add: upd_defs)+

lemma hgt_plug_le: "hgt (plug c t) \<le> max (hgt (plug c t0)) (hgt t + int (length c))"
proof (induction c arbitrary: t t0)
  case (Cons f c)
  obtain l a k h r l0 r0 where f:
    "plug (f # c) t = plug c (Node l a k h r)" "plug (f # c) t0 = plug c (Node l0 a k h r0)"
    "(l = t \<and> l0 = t0 \<and> r0 = r) \<or> (r = t \<and> r0 = t0 \<and> l0 = l)"
    by (cases f) auto
  show ?case
  proof (cases "hgt (Node l a k h r) \<le> hgt (Node l0 a k h r0)")
    case True
    then show ?thesis unfolding f using hgt_plug_mono[of "Node l a k h r" "Node l0 a k h r0" c] by simp
  next
    case False
    with f(3) have "hgt (Node l a k h r) = 1 + hgt t" by auto
    with Cons.IH[of "Node l a k h r" "Node l0 a k h r0"] show ?thesis unfolding f by simp
  qed
qed simp

lemma insert_cases:
  assumes "tree_inv s t"
  shows "avlUintInsert s (Some Root) (Some n) = Some (ERROR, s) \<or>
         (\<exists>s' t' xs ys. avlUintInsert s (Some Root) (Some n) = Some (OK, s') \<and>
            key (mem s n) \<notin> keys t \<and> n \<notin> addrs t \<and> tree_inv s' t' \<and>
            inorder t = xs @ ys \<and> inorder t' = xs @ (n, key (mem s n)) # ys \<and>
            (\<forall>x. x \<noteq> n \<and> x \<notin> addrs t \<longrightarrow> mem s' x = mem s x) \<and>
            hgt t' \<le> max (hgt t) (int AVLU_MAX_HEIGHT))"
proof -
  let ?k = "key (mem s n)"
  from assms have inv: "rep (mem s) t" "root s = ptr t" "owned t" "bst t" "avl t"
    by (simp_all add: tree_inv_def)
  have ctx0: "rep_ctx s [] (ptr t)" using inv(2) by (simp add: rep_ctx_def)
  have sim: "case insert_loop s ?k (hole_slot []) ancestor_init (length ([]::frame list)) of
           Return st \<Rightarrow> st = ERROR \<and> ?k \<in> keys t
         | Exit (pp, anc', n) \<Rightarrow>
             n = AVLU_MAX_HEIGHT \<or>
             (\<exists>c'. pp = hole_slot c' \<and> n = length c' \<and> n < AVLU_MAX_HEIGHT \<and>
                take n anc' = slots c' \<and> plug c' Leaf = plug [] t \<and> rep_ctx s c' None \<and> ?k \<notin> keys t \<and> bounds ?k c')"
    by (rule insert_loop_sim[OF inv(1) ctx0 _ _ inv(4)]) simp_all
  show ?thesis
  proof (cases "insert_loop s ?k Root ancestor_init 0")
    case (Return st)
    with sim show ?thesis by (simp add: avlUintInsert_def)
  next
    case (Exit v)
    obtain pp anc' m where v: "v = (pp, anc', m)" by (cases v) auto
    show ?thesis
    proof (cases "m = AVLU_MAX_HEIGHT")
      case True
      with Exit v show ?thesis by (simp add: avlUintInsert_def)
    next
      case False
      with sim Exit v obtain c' where c': "pp = hole_slot c'" "m = length c'" "take m anc' = slots c'"
        "m < AVLU_MAX_HEIGHT"
        "plug c' Leaf = t" "rep_ctx s c' None" "?k \<notin> keys t" "bounds ?k c'"
        by auto
      have fresh: "n \<notin> addrs t"
      proof
        assume "n \<in> addrs t"
        then obtain k where "(n, k) \<in> set (inorder t)" by (auto simp: addrs_def)
        with rep_key[OF inv(1) this] c'(7) show False by (force simp: keys_def)
      qed
      define lf where "lf = Node Leaf n ?k 1 Leaf"
      define s3 where "s3 = set_height (set_right (set_left s n None) n None) n 1"
      define s4 where "s4 = slot_set s3 pp (Some n)"
      have addrs_t: "addrs t = caddrs c'" using c'(5) addrs_plug[of c' Leaf] by simp
      have own_c: "owned_path c'"
        using inv(3) unfolding c'(5)[symmetric] by (simp add: owned_def owned_path_def inorder_plug)
      have "rep_ctx s3 c' None"
        using c'(6) fresh addrs_t by (auto intro!: rep_ctx_agree[of s] simp: s3_def new_leaf_mem)
      then have ctx4: "rep_ctx s4 c' (ptr lf)"
        unfolding s4_def c'(1) lf_def using own_c by (simp add: rep_ctx_slot_set)
      have rep4: "rep (mem s4) lf"
        using fresh slot_node_hole[of c'] addrs_t unfolding s4_def c'(1)
        by (subst rep_slot_set) (auto simp: lf_def s3_def new_leaf_mem)
      have own4: "owned_ctx c' lf"
        using own_c fresh addrs_t by (simp add: owned_ctx_iff lf_def)
      have okc: "ctx_ok c' 0"
        using inv(5) avl_plug[of c' Leaf] c'(5) by simp
      from rebalance_loop[OF rep4 ctx4 own4 c'(3)[unfolded c'(2)] _ okc]
      obtain s' t' where r: "avlUintRebalance anc' (length c') s4 = Some s'" "rep (mem s') t'"
        "root s' = ptr t'" "avl t'" "inorder t' = inorder (plug c' lf)"
        "\<forall>x. x \<notin> addrs (plug c' lf) \<longrightarrow> mem s' x = mem s4 x" "hgt t' \<le> hgt (plug c' lf)"
        by (auto simp: lf_def)
      have call: "avlUintInsert s (Some Root) (Some n) = Some (OK, s')"
        using Exit v False r(1) c'(2)
        by (simp add: avlUintInsert_def Let_def s3_def s4_def)
      have ino: "inorder t = before c' @ after c'" "inorder t' = before c' @ (n, ?k) # after c'"
        using c'(5) r(5) inorder_plug[of c' Leaf] by (simp_all add: inorder_plug lf_def)
      have "owned t'"
        using own4 r(5) by (simp add: owned_def owned_ctx_def inorder_plug)
      moreover have "bst t'"
        using inv(4) c'(8) unfolding bst_def ino bounds_def
        by (auto simp: sorted_wrt_append)
      ultimately have inv': "tree_inv s' t'"
        using r by (simp add: tree_inv_def)
      have frame: "\<forall>x. x \<noteq> n \<and> x \<notin> addrs t \<longrightarrow> mem s' x = mem s x"
      proof (intro allI impI)
        fix x assume x: "x \<noteq> n \<and> x \<notin> addrs t"
        then have "x \<notin> addrs (plug c' lf)" using addrs_t by (simp add: addrs_plug lf_def)
        then have "mem s' x = mem s4 x" using r(6) by simp
        also have "\<dots> = mem s3 x"
          unfolding s4_def c'(1) using x slot_node_hole[of c'] addrs_t
          by (subst mem_slot_set) auto
        also have "\<dots> = mem s x" using x by (simp add: s3_def new_leaf_mem)
        finally show "mem s' x = mem s x" .
      qed
      have "hgt (plug c' lf) \<le> max (hgt (plug c' Leaf)) (hgt lf + int (length c'))"
        by (rule hgt_plug_le)
      moreover have "length c' < AVLU_MAX_HEIGHT"
        using c'(2,4) by simp
      ultimately have "hgt t' \<le> max (hgt t) (int AVLU_MAX_HEIGHT)"
        using r(7) c'(5) by (simp add: lf_def)
      with call c'(7) fresh inv' ino frame show ?thesis by blast
    qed
  qed
qed

lemma plug_append: "plug (fs @ c) t = plug c (plug fs t)"
  by (induction fs t rule: plug.induct) auto

lemma rep_path_append:
  "rep_path m (fs @ c) p q = (rep_path m fs p (top fs p) \<and> rep_path m c (top fs p) q)"
  by (induction m fs p q rule: rep_path.induct) auto

lemma hole_slot_append: "fs \<noteq> [] \<Longrightarrow> hole_slot (fs @ c) = hole_slot fs"
  by (cases fs rule: hole_slot.cases) auto

lemma top_nonempty: "fs \<noteq> [] \<Longrightarrow> top fs p = top fs p'"
  by (cases fs rule: hole_slot.cases) auto

lemma top_ptr_plug: "top fs (ptr t) = ptr (plug fs t)"
  by (induction fs t rule: plug.induct) auto

lemma slots_replace:
  "slots (fs @ F' # c) = (slots (fs @ F # c))[Suc (length c) := hole_slot (F' # c)]"
proof (induction fs)
  case Nil
  show ?case by (simp add: list_update_beyond)
next
  case (Cons f fs)
  show ?case
  proof (cases "fs = []")
    case True
    then show ?thesis by (simp add: list_update_append list_update_beyond)
  next
    case False
    then have "hole_slot (fs @ F' # c) = hole_slot (fs @ F # c)"
      by (simp add: hole_slot_append)
    moreover from False have "Suc (length c) < length (slots (fs @ F # c))"
      by (cases fs) auto
    ultimately show ?thesis using Cons by (simp add: list_update_append)
  qed
qed

lemma ctx_ok_replace:
  "ctx_ok (fs @ LF a k h r # c) h0 = ctx_ok (fs @ LF a' k' h r # c) h0"
proof (induction fs arbitrary: h0)
  case (Cons f fs)
  show ?case using Cons.IH by (cases f) auto
qed simp

lemma inorder_plug_RF:
  "all_RF fs \<Longrightarrow> inorder (plug fs (Node pl pa pk ph Leaf)) = inorder (plug fs pl) @ [(pa, pk)]"
  by (induction fs arbitrary: pl pa pk ph rule: all_RF.induct) (auto simp: inorder_plug)

lemma del_post_step:
  assumes "del_post s k c' t' R" "plug c' t' = plug c t" "k \<in> keys t \<longrightarrow> k \<in> keys t'"
    "length c' + del_depth k t' = length c + del_depth k t"
  shows "del_post s k c t R"
  using assms unfolding del_post_def
  by (auto split: loop.splits)

lemma delete_loop_sim:
  assumes "rep (mem s) t" "rep_ctx s c (ptr t)" "take (length c) anc = slots c"
    "length anc = AVLU_MAX_HEIGHT" "bst t"
  shows "del_post s k c t (delete_loop s k (hole_slot c) p0 anc (length c))"
  using assms
proof (induction t arbitrary: c anc p0)
  case Leaf
  have len: "length c \<le> AVLU_MAX_HEIGHT"
    using slots_length_le[OF Leaf.prems(3)] Leaf.prems(4) by simp
  with Leaf show ?case
    by (subst delete_loop.simps) (auto simp: slot_get_hole del_post_def)
next
  case (Node l a k' h r)
  have len: "length c \<le> AVLU_MAX_HEIGHT"
    using slots_length_le[OF Node.prems(3)] Node.prems(4) by simp
  show ?case
  proof (cases "length c < AVLU_MAX_HEIGHT")
    case False
    with len show ?thesis by (subst delete_loop.simps) (auto simp: del_post_def)
  next
    case True
    have get: "slot_get s (hole_slot c) = Some a"
      using slot_get_hole[OF Node.prems(2)] by simp
    have key: "key (mem s a) = k'" using Node.prems(1) by simp
    let ?anc = "anc[length c := hole_slot c]"
    have anc': "take (length (f # c)) ?anc = slots (f # c)" "length ?anc = AVLU_MAX_HEIGHT" for f
      using True Node.prems(3,4) by (simp_all add: take_Suc_update)
    consider (eq) "k = k'" | (lt) "k < k'" | (gt) "k' < k" by (metis linorder_neqE)
    then show ?thesis
    proof cases
      case eq
      have "delete_loop s k (hole_slot c) p0 anc (length c) =
          Exit (hole_slot c, Some a, ?anc, Suc (length c))"
        using True get key eq by (subst delete_loop.simps) auto
      moreover have "take (Suc (length c)) ?anc = slots c @ [hole_slot c]"
        using anc'(1)[of undefined] by simp
      ultimately show ?thesis
        using Node.prems(1,2) anc'(2) eq unfolding del_post_def
        by (auto intro!: exI[of _ c])
    next
      case lt
      let ?c = "LF a k' h r # c"
      have 1: "rep (mem s) l" and 2: "rep_ctx s ?c (ptr l)"
        using Node.prems(1,2) by (auto simp: rep_ctx_def)
      have 3: "bst l" using Node.prems(5) by auto
      have nk: "k \<notin> keys r" using Node.prems(5) lt by (auto simp: keys_def)
      have step: "delete_loop s k (hole_slot c) p0 anc (length c) =
          delete_loop s k (hole_slot ?c) (Some a) ?anc (length ?c)"
        using True get key lt by (subst delete_loop.simps) auto
      show ?thesis
        unfolding step
        by (rule del_post_step[OF Node.IH(1)[OF 1 2 anc'(1) anc'(2) 3]]) (use lt nk in auto)
    next
      case gt
      let ?c = "RF l a k' h # c"
      have 1: "rep (mem s) r" and 2: "rep_ctx s ?c (ptr r)"
        using Node.prems(1,2) by (auto simp: rep_ctx_def)
      have 3: "bst r" using Node.prems(5) by auto
      have nk: "k \<notin> keys l" using Node.prems(5) gt by (auto simp: keys_def)
      have step: "delete_loop s k (hole_slot c) p0 anc (length c) =
          delete_loop s k (hole_slot ?c) (Some a) ?anc (length ?c)"
        using True get key gt by (subst delete_loop.simps) auto
      show ?thesis
        unfolding step
        by (rule del_post_step[OF Node.IH(2)[OF 1 2 anc'(1) anc'(2) 3]]) (use gt nk in auto)
    qed
  qed
qed

lemma all_RF_append [simp]: "all_RF (fs @ gs) = (all_RF fs \<and> all_RF gs)"
  by (induction fs rule: all_RF.induct) auto

lemma spine_pos: "t \<noteq> Leaf \<Longrightarrow> 0 < spine t"
  by (cases t) auto

lemma pred_loop_sim:
  assumes "rep (mem s) t" "t \<noteq> Leaf" "rep_ctx s c (ptr t)" "take (length c) anc = slots c"
    "length anc = AVLU_MAX_HEIGHT"
  shows "\<exists>R. pred_loop s (hole_slot c) p0 anc (length c) = Some R \<and> pred_post c t R"
  using assms
proof (induction t arbitrary: c anc p0)
  case Leaf
  then show ?case by simp
next
  case (Node l a k h r)
  have len: "length c \<le> AVLU_MAX_HEIGHT"
    using slots_length_le[OF Node.prems(4)] Node.prems(5) by simp
  show ?case
  proof (cases "length c < AVLU_MAX_HEIGHT")
    case False
    with len show ?thesis by (subst pred_loop.simps) (auto simp: pred_post_def)
  next
    case True
    have get: "slot_get s (hole_slot c) = Some a"
      using slot_get_hole[OF Node.prems(3)] by simp
    have r: "right (mem s a) = ptr r" using Node.prems(1) by simp
    show ?thesis
    proof (cases r)
      case Leaf
      have "pred_loop s (hole_slot c) p0 anc (length c) = Some (hole_slot c, a, anc, length c)"
        using True get r Leaf by (subst pred_loop.simps) auto
      moreover have "pred_post c (Node l a k h r) (hole_slot c, a, anc, length c)"
        unfolding pred_post_def using True Leaf Node.prems(4,5)
        by (auto intro!: exI[of _ "[]"])
      ultimately show ?thesis by blast
    next
      case (Node rl ra rk rh rr)
      let ?c = "RF l a k h # c"
      let ?anc = "anc[length c := hole_slot c]"
      have anc': "take (length ?c) ?anc = slots ?c" "length ?anc = AVLU_MAX_HEIGHT"
        using True Node.prems(4,5) \<open>take (length c) anc = slots c\<close> \<open>length anc = AVLU_MAX_HEIGHT\<close>
        by (simp_all add: take_Suc_update)
      have 1: "rep (mem s) r" "r \<noteq> Leaf" and 2: "rep_ctx s ?c (ptr r)"
        using \<open>rep (mem s) (tree.Node l a k h r)\<close> \<open>rep_ctx s c (ptr (tree.Node l a k h r))\<close> Node
        by (auto simp: rep_ctx_def)
      have step: "pred_loop s (hole_slot c) p0 anc (length c) =
          pred_loop s (hole_slot ?c) a ?anc (length ?c)"
        using True get r Node by (subst pred_loop.simps) auto
      from Node.IH(2)[OF 1 2 anc', of a] obtain R where
        R: "pred_loop s (hole_slot ?c) a ?anc (length ?c) = Some R" "pred_post ?c r R"
        by blast
      obtain pp pn anc2 n where Rv: "R = (pp, pn, anc2, n)" by (cases R) auto
      from R(2) consider
        (cap) "n = AVLU_MAX_HEIGHT" "AVLU_MAX_HEIGHT \<le> length ?c + (spine r - 1)"
        | (found) fs pl pa pk ph where "n < AVLU_MAX_HEIGHT" "n = length ?c + length fs"
           "length fs = spine r - 1" "pp = hole_slot (fs @ ?c)" "pn = pa"
           "take n anc2 = slots (fs @ ?c)" "length anc2 = AVLU_MAX_HEIGHT"
           "plug fs (tree.Node pl pa pk ph Leaf) = r" "all_RF fs"
        unfolding pred_post_def Rv by blast
      then have "pred_post c (tree.Node l a k h r) R"
      proof cases
        case cap
        then show ?thesis
          using spine_pos[OF 1(2)] unfolding pred_post_def Rv by simp
      next
        case found
        then show ?thesis
          using spine_pos[OF 1(2)] unfolding pred_post_def Rv
          by (intro case_prodI disjI2 exI[of _ "fs @ [RF l a k h]"] exI[of _ pl] exI[of _ pa]
                exI[of _ pk] exI[of _ ph])
             (auto simp: plug_append)
      qed
      with R(1) show ?thesis unfolding step by blast
    qed
  qed
qed

lemma rep_path_slot_set:
  assumes "fs \<noteq> []" "rep_path (mem s) fs p q" "owned_path fs"
  shows "rep_path (mem (slot_set s (hole_slot fs) p')) fs p' q"
  using assms by (cases fs rule: hole_slot.cases) (auto simp: upd_defs)

lemma key_slot_set [simp]: "key (mem (slot_set s pp p) x) = key (mem s x)"
  by (cases pp) (auto simp: upd_defs)

lemma caddrs_append: "caddrs (fs @ c) = caddrs fs \<union> caddrs c"
  using addrs_plug[of "fs @ c" Leaf] addrs_plug[of c "plug fs Leaf"] addrs_plug[of fs Leaf]
  by (simp add: plug_append)

lemma del_depth_pos: "k \<in> keys t \<Longrightarrow> 0 < del_depth k t"
  by (cases t) auto

lemma sorted_remove:
  "sorted_wrt (<) (map snd (xs @ x # ys)) \<Longrightarrow> sorted_wrt (<) (map snd (xs @ ys))"
  by (auto simp: sorted_wrt_append)

lemma delete_no_left:
  assumes inv: "tree_inv s t"
    and t: "plug c (Node Leaf a k h r) = t"
    and ctx: "rep_ctx s c (Some a)"
    and anc: "take (length c) anc = slots c"
  shows "\<exists>s' t'. avlUintRebalance anc (length c) (slot_set s (hole_slot c) (right (mem s a))) = Some s' \<and>
           tree_inv s' t' \<and> inorder t = before c @ (a, k) # inorder r @ after c \<and>
           inorder t' = before c @ inorder r @ after c \<and>
           (\<forall>x. x \<notin> addrs t \<longrightarrow> mem s' x = mem s x) \<and> key (mem s' a) = k \<and> hgt t' \<le> hgt t"
proof -
  from inv have i: "rep (mem s) t" "root s = ptr t" "owned t" "bst t" "avl t"
    by (simp_all add: tree_inv_def)
  let ?node = "Node Leaf a k h r"
  have repn: "rep (mem s) ?node"
    using i(1,2) rep_plug[of "mem s" c ?node "root s"] t by simp
  then have ma: "mem s a = \<lparr>key = k, left = None, right = ptr r, height = h\<rparr>" and repr: "rep (mem s) r"
    by simp_all
  have ino: "inorder t = before c @ (a, k) # inorder r @ after c"
    using t inorder_plug[of c ?node] by simp
  have own: "owned_ctx c ?node"
    using i(3) unfolding t[symmetric] by (simp add: owned_ctx_def owned_def inorder_plug)
  then have own': "owned_path c" "a \<notin> caddrs c" "addrs r \<inter> caddrs c = {}" "a \<notin> addrs r" "owned r"
    by (auto simp: owned_ctx_iff)
  define s1 where "s1 = slot_set s (hole_slot c) (right (mem s a))"
  have ctx1: "rep_ctx s1 c (ptr r)"
    unfolding s1_def ma using rep_ctx_slot_set[OF ctx own'(1)] by simp
  have rep1: "rep (mem s1) r"
    unfolding s1_def using repr slot_node_hole[of c] own'(3) by (subst rep_slot_set) auto
  have own1: "owned_ctx c r" using own' by (simp add: owned_ctx_iff)
  have av: "avl r" "ctx_ok c (1 + hgt r)"
    using i(5) avl_plug[of c ?node] t hgt_nonneg[of r] by auto
  from rebalance_loop[OF rep1 ctx1 own1 anc av] obtain s' t' where
    r: "avlUintRebalance anc (length c) s1 = Some s'" "rep (mem s') t'" "root s' = ptr t'" "avl t'"
      "inorder t' = inorder (plug c r)" "\<forall>x. x \<notin> addrs (plug c r) \<longrightarrow> mem s' x = mem s1 x"
      "hgt t' \<le> hgt (plug c r)"
    by auto
  have ino': "inorder t' = before c @ inorder r @ after c"
    using r(5) by (simp add: inorder_plug)
  have "owned t'" using i(3) unfolding owned_def ino ino' by auto
  moreover have "bst t'" using i(4) unfolding bst_def ino ino' by (auto simp: sorted_wrt_append)
  ultimately have inv': "tree_inv s' t'" using r by (simp add: tree_inv_def)
  have addrs_t: "addrs t = insert a (addrs r \<union> caddrs c)"
    using t addrs_plug[of c ?node] by auto
  have s1x: "mem s1 x = mem s x" if "x \<notin> caddrs c" for x
    unfolding s1_def using that slot_node_hole[of c] by (subst mem_slot_set) auto
  have frame: "\<forall>x. x \<notin> addrs t \<longrightarrow> mem s' x = mem s x"
    using r(6) s1x by (auto simp: addrs_t addrs_plug)
  have "mem s' a = mem s a"
    using r(6) s1x[of a] own' by (auto simp: addrs_plug)
  then have keya: "key (mem s' a) = k" using ma by simp
  have "hgt (plug c r) \<le> hgt (plug c ?node)"
    by (rule hgt_plug_mono) simp
  then have "hgt t' \<le> hgt t" using r(7) t by simp
  with r(1) inv' ino ino' frame keya show ?thesis
    unfolding s1_def by blast
qed

lemma mem_slot_set_hole: "x \<notin> caddrs c \<Longrightarrow> mem (slot_set s (hole_slot c) p) x = mem s x"
  using slot_node_hole[of c] by (intro mem_slot_set) auto

lemma delete_promote:
  assumes inv: "tree_inv s t"
    and t: "plug c (Node l a k h r) = t"
    and l: "plug fs (Node pl pa pk ph Leaf) = l" "all_RF fs"
    and ctx: "rep_ctx s c (Some a)"
    and anc: "take (length fs + Suc (length c)) anc = slots (fs @ LF a k h r # c)"
    and s1: "s1 = slot_set s (hole_slot (fs @ LF a k h r # c)) (left (mem s pa))"
    and s2: "s2 = set_left s1 pa (left (mem s1 a))"
    and s3: "s3 = set_right s2 pa (right (mem s2 a))"
    and s4: "s4 = set_height s3 pa (height (mem s3 a))"
    and s5: "s5 = slot_set s4 (hole_slot c) (Some pa)"
  shows "\<exists>s' t'. avlUintRebalance (anc[Suc (length c) := LeftOf pa]) (length fs + Suc (length c)) s5 = Some s' \<and>
           tree_inv s' t' \<and>
           inorder t = before c @ inorder (plug fs pl) @ (pa, pk) # (a, k) # inorder r @ after c \<and>
           inorder t' = before c @ inorder (plug fs pl) @ (pa, pk) # inorder r @ after c \<and>
           (\<forall>x. x \<notin> addrs t \<longrightarrow> mem s' x = mem s x) \<and> key (mem s' a) = k \<and> hgt t' \<le> hgt t"
proof -
  from inv have i: "rep (mem s) t" "root s = ptr t" "owned t" "bst t" "avl t"
    by (simp_all add: tree_inv_def)
  let ?pn = "Node pl pa pk ph Leaf"
  let ?node = "Node l a k h r"
  let ?l' = "plug fs pl"
  let ?c1 = "LF a k h r # c"
  let ?c2 = "fs @ LF a k h r # c"
  let ?c2' = "fs @ LF pa pk h r # c"
  have repn: "rep (mem s) ?node"
    using i(1,2) rep_plug[of "mem s" c ?node "root s"] t by simp
  then have ma: "mem s a = \<lparr>key = k, left = ptr l, right = ptr r, height = h\<rparr>"
    and repr: "rep (mem s) r" and repl: "rep (mem s) l"
    by simp_all
  have "rep (mem s) ?pn \<and> rep_path (mem s) fs (ptr ?pn) (ptr l)"
    using repl rep_plug[of "mem s" fs ?pn "ptr l"] l(1) by simp
  then have mpa: "mem s pa = \<lparr>key = pk, left = ptr pl, right = None, height = ph\<rparr>"
    and reppl: "rep (mem s) pl" and pathfs: "rep_path (mem s) fs (Some pa) (ptr l)"
    by simp_all
  have inl: "inorder l = inorder ?l' @ [(pa, pk)]"
    using inorder_plug_RF[OF l(2), of pl pa pk ph] l(1) by simp
  have ino: "inorder t = before c @ inorder ?l' @ (pa, pk) # (a, k) # inorder r @ after c"
    using t inorder_plug[of c ?node] inl by simp
  have plug2': "plug ?c2' pl = plug c (Node ?l' pa pk h r)"
    by (simp add: plug_append)
  have ino2: "inorder (plug ?c2' pl) = before c @ inorder ?l' @ (pa, pk) # inorder r @ after c"
    unfolding plug2' by (simp add: inorder_plug)
  have dist: "distinct (map fst (before c @ inorder ?l' @ (pa, pk) # (a, k) # inorder r @ after c))"
    using i(3) unfolding owned_def ino .
  text \<open>addresses\<close>
  have al: "addrs l = insert pa (addrs pl \<union> caddrs fs)"
    using addrs_plug[of fs ?pn] l(1) by auto
  have al': "addrs ?l' = addrs pl \<union> caddrs fs"
    by (simp add: addrs_plug)
  have inl_set: "fst ` set (inorder ?l') = addrs pl \<union> caddrs fs"
    using al' by (simp add: addrs_def)
  have d: "pa \<noteq> a" "pa \<notin> addrs pl" "pa \<notin> caddrs fs" "pa \<notin> addrs r" "pa \<notin> caddrs c"
    "a \<notin> addrs pl" "a \<notin> caddrs fs" "a \<notin> addrs r" "a \<notin> caddrs c"
    "addrs pl \<inter> caddrs c = {}" "addrs pl \<inter> addrs r = {}" "caddrs fs \<inter> caddrs c = {}"
    "caddrs fs \<inter> addrs r = {}" "addrs r \<inter> caddrs c = {}"
    using dist inl_set by (auto simp: addrs_def caddrs_def)
  have ownp: "owned_path c" "owned r"
    using dist by (auto simp: owned_path_def owned_def)
  have "owned ?l'" using dist by (auto simp: owned_def)
  then have ownfs: "owned_path fs" "addrs pl \<inter> caddrs fs = {}" "owned pl"
    using owned_ctx_iff[of fs pl] by (auto simp: owned_def owned_ctx_def inorder_plug)
  text \<open>the store after the splice\<close>
  have top: "top fs (ptr pl) = ptr ?l'" by (rule top_ptr_plug)
  have S1: "left (mem s1 a) = ptr ?l' \<and> right (mem s1 a) = ptr r \<and> height (mem s1 a) = h \<and>
      rep_path (mem s1) fs (ptr pl) (ptr ?l') \<and>
      (\<forall>x. x \<notin> insert a (caddrs fs) \<longrightarrow> mem s1 x = mem s x) \<and> root s1 = root s"
  proof (cases "fs = []")
    case True
    then show ?thesis
      unfolding s1 using ma mpa by (auto simp: upd_defs)
  next
    case False
    have hs: "hole_slot ?c2 = hole_slot fs" using False by (rule hole_slot_append)
    have a1: "mem s1 a = mem s a"
      unfolding s1 hs using slot_node_hole[of fs] d(7) by (subst mem_slot_set) auto
    have tp: "ptr ?l' = ptr l"
      using top_ptr_plug[of fs pl] top_ptr_plug[of fs ?pn] top_nonempty[OF False, of "ptr pl" "ptr ?pn"] l(1)
      by simp
    have "rep_path (mem s1) fs (ptr pl) (ptr ?l')"
      unfolding s1 hs tp mpa using rep_path_slot_set[OF False pathfs ownfs(1)] by simp
    moreover have "\<forall>x. x \<notin> insert a (caddrs fs) \<longrightarrow> mem s1 x = mem s x"
      unfolding s1 hs by (auto simp: mem_slot_set_hole)
    moreover have "root s1 = root s"
      unfolding s1 hs using False by (cases fs rule: hole_slot.cases) (auto simp: upd_defs)
    ultimately show ?thesis using a1 ma tp by simp
  qed
  then have left1: "left (mem s1 a) = ptr ?l'" and rest1: "right (mem s1 a) = ptr r" "height (mem s1 a) = h"
    and path1: "rep_path (mem s1) fs (ptr pl) (ptr ?l')"
    and s1x: "\<forall>x. x \<notin> insert a (caddrs fs) \<longrightarrow> mem s1 x = mem s x" and root1: "root s1 = root s"
    by blast+
  have key1: "key (mem s1 x) = key (mem s x)" for x unfolding s1 by simp
  have m4: "mem s4 = (mem s1)(pa := \<lparr>key = pk, left = ptr ?l', right = ptr r, height = h\<rparr>)"
    and root4: "root s4 = root s"
    unfolding s4 s3 s2 using d(1) left1 rest1 root1 s1x mpa key1[of pa]
    by (cases "mem s1 pa"; auto simp: upd_defs)+
  have ctx4: "rep_ctx s4 c (Some a)"
  proof (rule rep_ctx_agree[OF ctx root4], intro ballI)
    fix x assume x: "x \<in> caddrs c"
    with d(5,9,12) have "x \<noteq> pa" "x \<notin> insert a (caddrs fs)" by blast+
    then show "mem s4 x = mem s x" using s1x by (simp add: m4)
  qed
  have ctx5: "rep_ctx s5 c (Some pa)"
    unfolding s5 by (rule rep_ctx_slot_set[OF ctx4 ownp(1)])
  have s5x: "mem s5 x = mem s4 x" if "x \<notin> caddrs c" for x
    unfolding s5 using that slot_node_hole[of c] by (subst mem_slot_set) auto
  have s54: "mem s5 x = mem s1 x" if "x \<notin> caddrs c" "x \<noteq> pa" for x
    using that s5x[of x] by (simp add: m4)
  have keep: "mem s5 x = mem s x" if "x \<notin> caddrs c" "x \<noteq> pa" "x \<noteq> a" "x \<notin> caddrs fs" for x
    using that s54[of x] s1x by simp
  have rep5: "rep (mem s5) pl"
  proof (rule rep_agree[OF reppl], intro ballI)
    fix x assume "x \<in> addrs pl"
    with d(2,6,10) ownfs(2) show "mem s5 x = mem s x" by (intro keep) blast+
  qed
  have rep5r: "rep (mem s5) r"
  proof (rule rep_agree[OF repr], intro ballI)
    fix x assume "x \<in> addrs r"
    with d(4,8,13,14) show "mem s5 x = mem s x" by (intro keep) blast+
  qed
  have path5: "rep_path (mem s5) fs (ptr pl) (ptr ?l')"
  proof (rule rep_path_agree[OF path1], intro ballI)
    fix x assume "x \<in> caddrs fs"
    with d(3,12) show "mem s5 x = mem s1 x" by (intro s54) blast+
  qed
  have pa5: "mem s5 pa = \<lparr>key = pk, left = ptr ?l', right = ptr r, height = h\<rparr>"
    using s5x[of pa] d(5) by (simp add: m4)
  have ctx2': "rep_ctx s5 ?c2' (ptr pl)"
    using path5 pa5 rep5r ctx5 unfolding rep_ctx_def rep_path_append top by simp
  have own2': "owned_ctx ?c2' pl"
    using dist unfolding owned_ctx_def inorder_plug[symmetric] ino2 by auto
  have anc2': "take (length ?c2') (anc[Suc (length c) := LeftOf pa]) = slots ?c2'"
    using anc slots_replace[of fs "LF pa pk h r" c "LF a k h r"]
    by (simp add: take_update_swap)
  have "avl (plug ?c2 ?pn)"
    using i(5) t l(1) by (simp add: plug_append)
  then have av: "avl pl" "ctx_ok ?c2' (1 + hgt pl)"
    using avl_plug[of ?c2 ?pn] hgt_nonneg[of pl] ctx_ok_replace[of fs a k h r c "1 + hgt pl" pa pk]
    by auto
  from rebalance_loop[OF rep5 ctx2' own2' anc2' av] obtain s' t' where
    r: "avlUintRebalance (anc[Suc (length c) := LeftOf pa]) (length ?c2') s5 = Some s'"
      "rep (mem s') t'" "root s' = ptr t'" "avl t'"
      "inorder t' = inorder (plug ?c2' pl)" "\<forall>x. x \<notin> addrs (plug ?c2' pl) \<longrightarrow> mem s' x = mem s5 x"
      "hgt t' \<le> hgt (plug ?c2' pl)"
    by auto
  have ino': "inorder t' = before c @ inorder ?l' @ (pa, pk) # inorder r @ after c"
    using r(5) ino2 by simp
  have "owned t'" using dist unfolding owned_def ino' by auto
  moreover have "bst t'" using i(4) unfolding bst_def ino ino' by (auto simp: sorted_wrt_append)
  ultimately have inv': "tree_inv s' t'" using r by (simp add: tree_inv_def)
  have addrs_t: "addrs t = insert a (insert pa (addrs pl \<union> caddrs fs \<union> addrs r \<union> caddrs c))"
    using t addrs_plug[of c ?node] al by auto
  have addrs_t': "addrs (plug ?c2' pl) = insert pa (addrs pl \<union> caddrs fs \<union> addrs r \<union> caddrs c)"
    unfolding plug2' using al' by (auto simp: addrs_plug)
  have frame: "\<forall>x. x \<notin> addrs t \<longrightarrow> mem s' x = mem s x"
    using r(6) s5x s1x by (auto simp: addrs_t addrs_t' m4)
  have "mem s' a = mem s5 a" using r(6) d by (simp add: addrs_t')
  then have keya: "key (mem s' a) = k"
    using s5x[of a] d key1[of a] ma by (simp add: m4)
  have "hgt ?l' \<le> hgt l"
    unfolding l(1)[symmetric] by (rule hgt_plug_mono) simp
  then have "hgt (plug ?c2' pl) \<le> hgt (plug c ?node)"
    unfolding plug2' by (intro hgt_plug_mono) simp
  then have "hgt t' \<le> hgt t" using r(7) t by simp
  with r(1) inv' ino ino' frame keya show ?thesis by auto
qed

lemma take_length_le: "take n xs = ys \<Longrightarrow> length ys = n \<Longrightarrow> n \<le> length xs"
  by auto

lemma delete_cases:
  assumes inv: "tree_inv s t"
  shows "(avlUintDelete s (Some Root) k = Some (None, s) \<and>
            (k \<notin> keys t \<or> AVLU_MAX_HEIGHT \<le> del_depth k t)) \<or>
         (\<exists>s' t' a xs ys. avlUintDelete s (Some Root) k = Some (Some a, s') \<and>
            k \<in> keys t \<and> del_depth k t < AVLU_MAX_HEIGHT \<and> tree_inv s' t' \<and>
            inorder t = xs @ (a, k) # ys \<and> inorder t' = xs @ ys \<and>
            (\<forall>x. x \<notin> addrs t \<longrightarrow> mem s' x = mem s x) \<and> key (mem s' a) = k \<and>
            hgt t' \<le> hgt t)"
proof -
  from inv have i: "rep (mem s) t" "root s = ptr t" "owned t" "bst t" "avl t"
    by (simp_all add: tree_inv_def)
  have ctx0: "rep_ctx s [] (ptr t)" using i(2) by (simp add: rep_ctx_def)
  define D where "D = delete_loop s k Root None ancestor_init 0"
  have post: "del_post s k [] t D"
    unfolding D_def
    using delete_loop_sim[OF i(1) ctx0 _ _ i(4), of ancestor_init k None] by simp
  show ?thesis
  proof (cases D)
    case (Return res)
    with post show ?thesis
      by (simp add: avlUintDelete_def D_def[symmetric] del_post_def)
  next
    case (Exit v)
    obtain pp pn anc n where v: "v = (pp, pn, anc, n)" by (cases v) auto
    from post consider
      (cap) "n = AVLU_MAX_HEIGHT" "k \<in> keys t \<longrightarrow> AVLU_MAX_HEIGHT < del_depth k t"
      | (found) c l a h r where "pp = hole_slot c" "pn = Some a" "n = Suc (length c)"
          "take n anc = slots c @ [hole_slot c]" "length anc = AVLU_MAX_HEIGHT"
          "plug c (Node l a k h r) = t" "rep_ctx s c (Some a)" "rep (mem s) (Node l a k h r)"
          "length c + del_depth k (Node l a k h r) = del_depth k t"
      unfolding del_post_def Exit v by auto
    then show ?thesis
    proof cases
      case cap
      then show ?thesis
        using Exit v by (auto simp: avlUintDelete_def D_def[symmetric])
    next
      case found
      have nle: "n \<le> AVLU_MAX_HEIGHT"
        using take_length_le[OF found(4)] found(3,5) by simp
      have kin: "k \<in> keys t"
        using found(6) by (auto simp: keys_def inorder_plug)
      have anc_c: "take (length c) anc = slots c"
        using take_Suc_snoc[of "length c" anc "slots c" "hole_slot c"] found(3,4) by simp
      have ma: "left (mem s a) = ptr l" using found(8) by simp
      show ?thesis
      proof (cases "n = AVLU_MAX_HEIGHT")
        case True
        then have "AVLU_MAX_HEIGHT \<le> del_depth k t"
          using found(3,9) by simp
        with True show ?thesis
          using Exit v by (auto simp: avlUintDelete_def D_def[symmetric])
      next
        case False
        with nle have nlt: "n < AVLU_MAX_HEIGHT" by simp
        show ?thesis
        proof (cases l)
          case Leaf
          from delete_no_left[OF inv found(6)[unfolded Leaf] found(7) anc_c] obtain s' t' where
            r: "avlUintRebalance anc (length c) (slot_set s (hole_slot c) (right (mem s a))) = Some s'"
              "tree_inv s' t'" "inorder t = before c @ (a, k) # inorder r @ after c"
              "inorder t' = before c @ inorder r @ after c"
              "\<forall>x. x \<notin> addrs t \<longrightarrow> mem s' x = mem s x" "key (mem s' a) = k" "hgt t' \<le> hgt t"
            by blast
          have call: "avlUintDelete s (Some Root) k = Some (Some a, s')"
            using Exit v False found(1,2,3) ma Leaf r(1)
            by (simp add: avlUintDelete_def D_def[symmetric] Let_def)
          have dd: "del_depth k t < AVLU_MAX_HEIGHT"
            using found(3,9) nlt Leaf by simp
          from call kin dd r(2-7) show ?thesis by blast
        next
          case (Node ll la lk lh lr)
          let ?c1 = "LF a k h r # c"
          have 1: "rep (mem s) l" "l \<noteq> Leaf" using found(8) Node by auto
          have 2: "rep_ctx s ?c1 (ptr l)"
            using found(7,8) by (auto simp: rep_ctx_def)
          have 3: "take (length ?c1) anc = slots ?c1"
            using found(3,4) by simp
          from pred_loop_sim[OF 1 2 3 found(5), of a] obtain R where
            R: "pred_loop s (LeftOf a) a anc n = Some R" "pred_post ?c1 l R"
            using found(3) by auto
          obtain pp2 pn2 anc2 n2 where Rv: "R = (pp2, pn2, anc2, n2)" by (cases R) auto
          from R(2) consider
            (cap2) "n2 = AVLU_MAX_HEIGHT" "AVLU_MAX_HEIGHT \<le> length ?c1 + (spine l - 1)"
            | (found2) fs pl pa pk ph where "n2 < AVLU_MAX_HEIGHT" "n2 = length ?c1 + length fs"
               "length fs = spine l - 1" "pp2 = hole_slot (fs @ ?c1)" "pn2 = pa"
               "take n2 anc2 = slots (fs @ ?c1)" "length anc2 = AVLU_MAX_HEIGHT"
               "plug fs (tree.Node pl pa pk ph Leaf) = l" "all_RF fs"
            unfolding pred_post_def Rv by blast
          then show ?thesis
          proof cases
            case cap2
            have "AVLU_MAX_HEIGHT \<le> del_depth k t"
              using cap2(2) found(9) by simp
            moreover have "avlUintDelete s (Some Root) k = Some (None, s)"
              using Exit v False found(1,2,3) ma Node R(1) Rv cap2(1)
              by (simp add: avlUintDelete_def D_def[symmetric] Let_def)
            ultimately show ?thesis by blast
          next
            case found2
            define s1 where "s1 = slot_set s (hole_slot (fs @ ?c1)) (left (mem s pa))"
            define s2 where "s2 = set_left s1 pa (left (mem s1 a))"
            define s3 where "s3 = set_right s2 pa (right (mem s2 a))"
            define s4 where "s4 = set_height s3 pa (height (mem s3 a))"
            define s5 where "s5 = slot_set s4 (hole_slot c) (Some pa)"
            have anc2: "take (length fs + Suc (length c)) anc2 = slots (fs @ ?c1)"
              using found2(2,6) by (simp add: add.commute)
            from delete_promote[OF inv found(6) found2(8,9) found(7) anc2 s1_def s2_def s3_def s4_def s5_def]
            obtain s' t' where
              r: "avlUintRebalance (anc2[Suc (length c) := LeftOf pa]) (length fs + Suc (length c)) s5 = Some s'"
                "tree_inv s' t'"
                "inorder t = before c @ inorder (plug fs pl) @ (pa, pk) # (a, k) # inorder r @ after c"
                "inorder t' = before c @ inorder (plug fs pl) @ (pa, pk) # inorder r @ after c"
                "\<forall>x. x \<notin> addrs t \<longrightarrow> mem s' x = mem s x" "key (mem s' a) = k" "hgt t' \<le> hgt t"
              by blast
            have n2: "n2 = length fs + Suc (length c)" using found2(2) by simp
            have call: "avlUintDelete s (Some Root) k = Some (Some a, s')"
              using Exit v False found(1,2,3) ma Node R(1) Rv found2(1,4,5) r(1)
              unfolding n2 s5_def s4_def s3_def s2_def s1_def
              by (simp add: avlUintDelete_def D_def[symmetric] Let_def)
            have dd: "del_depth k t < AVLU_MAX_HEIGHT"
              using found(9) found2(1,2,3) by simp
            have "inorder t = (before c @ inorder (plug fs pl) @ [(pa, pk)]) @ (a, k) # (inorder r @ after c)"
              "inorder t' = (before c @ inorder (plug fs pl) @ [(pa, pk)]) @ (inorder r @ after c)"
              using r(3,4) by simp_all
            with call kin dd r(2,5,6,7) show ?thesis by blast
          qed
        qed
      qed
    qed
  qed
qed

lemma search_loop_rep: "rep m t \<Longrightarrow> search_loop m k (ptr t) = Some (lookup t k)"
  by (induction t) (auto simp: search_loop.simps)

lemma lookup_bst: "bst t \<Longrightarrow> (a, k) \<in> set (inorder t) \<Longrightarrow> lookup t k = Some a"
  by (induction t) force+

lemma lookup_None: "k \<notin> keys t \<Longrightarrow> lookup t k = None"
  by (induction t) auto

lemma successor_loop_rep:
  "rep m t \<Longrightarrow> bst t \<Longrightarrow>
     successor_loop m k (ptr t) best =
       Some (case find (\<lambda>x. k < snd x) (inorder t) of None \<Rightarrow> best | Some x \<Rightarrow> Some (fst x))"
proof (induction t arbitrary: best)
  case Leaf
  then show ?case by (simp add: successor_loop.simps)
next
  case (Node l a k' h r)
  have fl: "find (\<lambda>x. k < snd x) (xs @ ys) =
      (case find (\<lambda>x. k < snd x) xs of None \<Rightarrow> find (\<lambda>x. k < snd x) ys | Some x \<Rightarrow> Some x)"
    for xs ys :: "(addr \<times> UINT) list"
    by (induction xs) auto
  show ?case
  proof (cases "k' \<le> k")
    case True
    then have "find (\<lambda>x. k < snd x) (inorder l) = None"
      using Node.prems(2) by (force simp: find_None_iff)
    moreover from True have "\<not> k < k'" by simp
    ultimately show ?thesis using True Node
      by (subst successor_loop.simps) (simp add: fl)
  next
    case False
    with Node show ?thesis
      by (subst successor_loop.simps) (auto simp: fl split: option.splits)
  qed
qed

lemma predecessor_loop_rep:
  "rep m t \<Longrightarrow> bst t \<Longrightarrow>
     predecessor_loop m k (ptr t) best =
       Some (case find (\<lambda>x. snd x < k) (rev (inorder t)) of None \<Rightarrow> best | Some x \<Rightarrow> Some (fst x))"
proof (induction t arbitrary: best)
  case Leaf
  then show ?case by (simp add: predecessor_loop.simps)
next
  case (Node l a k' h r)
  have fl: "find (\<lambda>x. snd x < k) (xs @ ys) =
      (case find (\<lambda>x. snd x < k) xs of None \<Rightarrow> find (\<lambda>x. snd x < k) ys | Some x \<Rightarrow> Some x)"
    for xs ys :: "(addr \<times> UINT) list"
    by (induction xs) auto
  show ?case
  proof (cases "k \<le> k'")
    case True
    then have "find (\<lambda>x. snd x < k) (rev (inorder r)) = None"
      using Node.prems(2) by (force simp: find_None_iff)
    moreover from True have "\<not> k' < k" by simp
    ultimately show ?thesis using True Node
      by (subst predecessor_loop.simps) (simp add: fl)
  next
    case False
    with Node show ?thesis
      by (subst predecessor_loop.simps) (auto simp: fl split: option.splits)
  qed
qed

lemma find_sorted_first:
  "sorted_wrt (<) (map snd xs) \<Longrightarrow> find P xs = Some x \<Longrightarrow>
     x \<in> set xs \<and> P x \<and> (\<forall>y \<in> set xs. P y \<longrightarrow> snd x \<le> snd y)"
  for xs :: "(addr \<times> UINT) list"
proof (induction xs)
  case (Cons z zs)
  show ?case
  proof (cases "P z")
    case True
    with Cons.prems show ?thesis by (auto intro: less_imp_le)
  next
    case False
    with Cons show ?thesis by auto
  qed
qed simp

lemma find_sorted_last:
  "sorted_wrt (<) (map snd xs) \<Longrightarrow> find P (rev xs) = Some x \<Longrightarrow>
     x \<in> set xs \<and> P x \<and> (\<forall>y \<in> set xs. P y \<longrightarrow> snd y \<le> snd x)"
  for xs :: "(addr \<times> UINT) list"
proof (induction xs rule: rev_induct)
  case (snoc z zs)
  show ?case
  proof (cases "P z")
    case True
    with snoc.prems show ?thesis by (auto simp: sorted_wrt_append intro: less_imp_le)
  next
    case False
    with snoc show ?thesis by (auto simp: sorted_wrt_append)
  qed
qed simp



lemma spine_le_hgt: "int (spine t) \<le> hgt t"
  by (induction t) auto

lemma del_depth_le_hgt: "int (del_depth k t) \<le> hgt t"
proof (induction t)
  case (Node l a k' h r)
  then show ?case using spine_le_hgt[of l] hgt_nonneg[of l] hgt_nonneg[of r] by auto
qed simp

lemma bst_keys_distinct: "bst t \<Longrightarrow> inorder t = xs @ (a, k) # ys \<Longrightarrow> k \<notin> snd ` set (xs @ ys)"
  by (auto simp: bst_def sorted_wrt_append)

lemma owned_addrs_distinct: "owned t \<Longrightarrow> inorder t = xs @ (a, k) # ys \<Longrightarrow> a \<notin> fst ` set (xs @ ys)"
  by (auto simp: owned_def)

lemma call_keeps:
  assumes "keeps_store rtn" "call rtn p a w = (st, w')"
  shows "fst w' = fst w"
proof (cases rtn)
  case None
  with assms(2) show ?thesis by (simp add: call_def)
next
  case (Some f)
  with assms(1) have "fst (snd (f p a w)) = fst w" by (cases w) (simp add: keeps_store_def)
  moreover from assms(2) Some have "f p a w = (st, w')" by (simp add: call_def)
  ultimately show ?thesis by simp
qed

lemma walk_pre_in_unfold:
  "walk_pre_in preRtn preArg inRtn inArg pNode stk w =
    (if length stk < 2 * AVLU_MAX_HEIGHT then
       (case walk_left preRtn preArg pNode stk w of
          Return res \<Rightarrow> Some (Return res)
        | Exit (stk', w') \<Rightarrow> walk_pop preRtn preArg inRtn inArg stk' w')
     else Some (Exit w))"
  by (subst walk_pre_in.simps)
    (auto simp: walk_pop_def Let_def split: loop.splits list.splits prod.splits STATUS.splits)

lemma walk1_keeps:
  assumes "keeps_store preRtn" "keeps_store inRtn"
  shows "walk1 preRtn preArg inRtn inArg t d w = Exit w' \<or>
         walk1 preRtn preArg inRtn inArg t d w = Return (st, w') \<Longrightarrow> fst w' = fst w"
proof (induction t arbitrary: d w w' st)
  case Leaf
  then show ?case by simp
next
  case (Node l a k h r)
  obtain st1 w1 where c1: "call preRtn a preArg w = (st1, w1)" by (cases "call preRtn a preArg w")
  have m1: "fst w1 = fst w" by (rule call_keeps[OF assms(1) c1])
  show ?case
  proof (cases "st1 = ERROR \<or> d \<ge> 2 * AVLU_MAX_HEIGHT")
    case True
    with Node.prems c1 m1 show ?thesis by (cases st1) auto
  next
    case False
    then have st1: "st1 = OK" "\<not> d \<ge> 2 * AVLU_MAX_HEIGHT" by (cases st1; simp)+
    show ?thesis
    proof (cases "walk1 preRtn preArg inRtn inArg l (Suc d) w1")
      case (Return res)
      with Node.prems c1 st1 have "walk1 preRtn preArg inRtn inArg l (Suc d) w1 = Return (st, w')"
        by auto
      with Node.IH(1)[of "Suc d" w1 w' st] m1 show ?thesis by simp
    next
      case (Exit w2)
      with Node.IH(1)[of "Suc d" w1 w2] m1 have m2: "fst w2 = fst w" by simp
      obtain st3 w3 where c3: "call inRtn a inArg w2 = (st3, w3)" by (cases "call inRtn a inArg w2")
      have m3: "fst w3 = fst w" using call_keeps[OF assms(2) c3] m2 by simp
      show ?thesis
      proof (cases st3)
        case ERROR
        with Node.prems c1 st1 Exit c3 m3 show ?thesis by auto
      next
        case OK
        with Node.prems c1 st1 Exit c3 have "walk1 preRtn preArg inRtn inArg r d w3 = Exit w' \<or>
            walk1 preRtn preArg inRtn inArg r d w3 = Return (st, w')"
          by auto
        with Node.IH(2)[of d w3 w' st] m3 show ?thesis by simp
      qed
    qed
  qed
qed

lemma walk_left_walk1:
  assumes "keeps_store preRtn" "keeps_store inRtn" "rep (fst w) t"
  shows "(case walk_left preRtn preArg (ptr t) stk w of
            Return res \<Rightarrow> Some (Return res)
          | Exit (stk', w') \<Rightarrow> walk_pop preRtn preArg inRtn inArg stk' w') =
         (case walk1 preRtn preArg inRtn inArg t (length stk) w of
            Return res \<Rightarrow> Some (Return res)
          | Exit w' \<Rightarrow> walk_pop preRtn preArg inRtn inArg stk w')"
  using assms(3)
proof (induction t arbitrary: stk w)
  case Leaf
  show ?case by (subst walk_left.simps) simp
next
  case (Node l a k h r)
  obtain st w1 where c1: "call preRtn a preArg w = (st, w1)" by (cases "call preRtn a preArg w")
  have m1: "fst w1 = fst w" by (rule call_keeps[OF assms(1) c1])
  show ?case
  proof (cases "st = ERROR \<or> length stk \<ge> 2 * AVLU_MAX_HEIGHT")
    case True
    then show ?thesis
      using c1 by (subst walk_left.simps) (cases st; auto)
  next
    case False
    then have st: "st = OK" and len: "length stk < 2 * AVLU_MAX_HEIGHT" by (cases st; simp)+
    have repl: "rep (fst w1) l" and left: "left (fst w1 a) = ptr l"
      using Node.prems m1 by auto
    have step: "walk_left preRtn preArg (ptr (Node l a k h r)) stk w =
        walk_left preRtn preArg (ptr l) (a # stk) w1"
      using c1 st len left by (subst walk_left.simps) simp
    have pop: "walk_pop preRtn preArg inRtn inArg (a # stk) w2 =
        (case call inRtn a inArg w2 of
           (ERROR, w3) \<Rightarrow> Some (Return (ERROR, w3))
         | (OK, w3) \<Rightarrow>
            (case walk1 preRtn preArg inRtn inArg r (length stk) w3 of
               Return res \<Rightarrow> Some (Return res)
             | Exit w' \<Rightarrow> walk_pop preRtn preArg inRtn inArg stk w'))"
      if w2: "fst w2 = fst w" for w2
    proof -
      obtain st3 w3 where c3: "call inRtn a inArg w2 = (st3, w3)" by (cases "call inRtn a inArg w2")
      have m3: "fst w3 = fst w" using call_keeps[OF assms(2) c3] w2 by simp
      have repr: "rep (fst w3) r" and right: "right (fst w2 a) = ptr r"
        using Node.prems m3 w2 by auto
      show ?thesis
        using c3 right len Node.IH(2)[OF repr, of stk]
        by (cases st3) (simp_all add: walk_pop_def walk_pre_in_unfold[of _ _ _ _ "ptr r"])
    qed
    have keep1: "fst w2 = fst w" if "walk1 preRtn preArg inRtn inArg l d w1 = Exit w2" for d w2
      using walk1_keeps[OF assms(1,2), of preArg inArg l d w1 w2] that m1 by simp
    show ?thesis
    proof (cases "walk1 preRtn preArg inRtn inArg l (Suc (length stk)) w1")
      case (Return res)
      then show ?thesis
        unfolding step Node.IH(1)[OF repl, of "a # stk"] using c1 st len by simp
    next
      case (Exit w2)
      then show ?thesis
        unfolding step Node.IH(1)[OF repl, of "a # stk"] using c1 st len pop[OF keep1[OF Exit]]
        by (auto split: prod.splits STATUS.splits)
    qed
  qed
qed

lemma walk2_keeps:
  assumes "\<forall>p a w. fst (snd (postRtn p a w)) = fst w"
  shows "walk2 postRtn postArg t d w = Exit w' \<or> walk2 postRtn postArg t d w = Return (st, w') \<Longrightarrow>
           fst w' = fst w"
proof (induction t arbitrary: d w w' st)
  case Leaf
  then show ?case by simp
next
  case (Node l a k h r)
  let ?dl = "if r = Leaf then Suc d else Suc (Suc d)"
  show ?case
  proof (cases "Suc d + 2 \<ge> 2 * AVLU_MAX_HEIGHT")
    case True
    with Node.prems show ?thesis by auto
  next
    case False
    show ?thesis
    proof (cases "walk2 postRtn postArg l ?dl w")
      case (Return res)
      with Node.prems False have "walk2 postRtn postArg l ?dl w = Return (st, w')" by auto
      with Node.IH(1)[of ?dl w w' st] show ?thesis by simp
    next
      case (Exit w1)
      with Node.IH(1)[of ?dl w w1] have m1: "fst w1 = fst w" by simp
      show ?thesis
      proof (cases "walk2 postRtn postArg r (Suc d) w1")
        case (Return res)
        with Node.prems False Exit have "walk2 postRtn postArg r (Suc d) w1 = Return (st, w')" by auto
        with Node.IH(2)[of "Suc d" w1 w' st] m1 show ?thesis by simp
      next
        case Exit2: (Exit w2)
        with Node.IH(2)[of "Suc d" w1 w2] m1 have m2: "fst w2 = fst w" by simp
        obtain st3 w3 where c3: "postRtn a postArg w2 = (st3, w3)" by (cases "postRtn a postArg w2")
        have "fst w3 = fst w2" using assms[rule_format, of a postArg w2] c3 by simp
        with Node.prems False Exit Exit2 c3 m2 show ?thesis by (cases st3) auto
      qed
    qed
  qed
qed

lemma length_push: "length (push t stk) = (if t = Leaf then length stk else Suc (length stk))"
  by (cases t) (auto simp: push_def)

lemma walk_post_walk2:
  assumes keep: "\<forall>p a w. fst (snd (postRtn p a w)) = fst w" and "rep (fst w) t"
  shows "walk_post postRtn postArg (push t stk) w =
           (case walk2 postRtn postArg t (length stk) w of
              Return res \<Rightarrow> Some (Return res)
            | Exit w' \<Rightarrow> walk_post postRtn postArg stk w')"
  using assms(2)
proof (induction t arbitrary: stk w)
  case Leaf
  show ?case by (simp add: push_def)
next
  case (Node l a k h r)
  let ?s1 = "(a, True) # stk"
  let ?dl = "if r = Leaf then Suc (length stk) else Suc (Suc (length stk))"
  show ?case
  proof (cases "Suc (length stk) + 2 \<ge> 2 * AVLU_MAX_HEIGHT")
    case True
    then show ?thesis
      by (subst walk_post.simps) (simp add: push_def)
  next
    case False
    have lr: "left (fst w a) = ptr l" "right (fst w a) = ptr r" "rep (fst w) l" "rep (fst w) r"
      using Node.prems by auto
    have step: "walk_post postRtn postArg (push (Node l a k h r) stk) w =
        walk_post postRtn postArg (push l (push r ?s1)) w"
      using False lr(1,2)
      by (subst walk_post.simps) (simp add: push_def Let_def split: option.splits)
    have flagged: "walk_post postRtn postArg ?s1 w2 =
        (case postRtn a postArg w2 of
           (ERROR, w3) \<Rightarrow> Some (Return (ERROR, w3))
         | (OK, w3) \<Rightarrow> walk_post postRtn postArg stk w3)" for w2
      by (subst walk_post.simps) simp
    have dl: "length (push r ?s1) = ?dl" by (simp add: length_push)
    show ?thesis
    proof (cases "walk2 postRtn postArg l ?dl w")
      case (Return res)
      then show ?thesis
        unfolding step Node.IH(1)[OF lr(3), of "push r ?s1"] dl using False by simp
    next
      case (Exit w1)
      have m1: "fst w1 = fst w" using walk2_keeps[OF keep, of postArg l ?dl w w1] Exit by simp
      then have r1: "rep (fst w1) r" using lr(4) by simp
      show ?thesis
        unfolding step Node.IH(1)[OF lr(3), of "push r ?s1"] dl
        using False Exit Node.IH(2)[OF r1, of ?s1] flagged
        by (auto split: loop.splits prod.splits STATUS.splits)
    qed
  qed
qed

lemma walk_total:
  assumes "keeps_store preRtn" "keeps_store inRtn" "keeps_store postRtn" "rep (fst w) t"
  shows "avlUintTreeWalk (ptr t) preRtn preArg inRtn inArg postRtn postArg w =
           Some (walk_spec preRtn preArg inRtn inArg postRtn postArg t w)"
proof (cases t)
  case Leaf
  then show ?thesis by (simp add: avlUintTreeWalk_def walk_spec_def)
next
  case (Node l a k h r)
  have p1: "walk_pre_in preRtn preArg inRtn inArg (ptr t) [] w =
      Some (walk1 preRtn preArg inRtn inArg t 0 w)"
    using walk_left_walk1[OF assms(1,2,4), where stk = "[]" and preArg = preArg and inArg = inArg]
    by (simp add: walk_pre_in_unfold AVLU_MAX_HEIGHT_def walk_pop_def split: loop.splits)
  have p2: "walk_post f postArg [(a, False)] w1 =
      Some (case walk2 f postArg t 0 w1 of Return res \<Rightarrow> Return res | Exit w2 \<Rightarrow> Exit w2)"
    if "postRtn = Some f" "fst w1 = fst w" for f w1
  proof -
    from that(1) assms(3) have k: "\<forall>p a w. fst (snd (f p a w)) = fst w"
      by (auto simp: keeps_store_def)
    from that(2) assms(4) have "rep (fst w1) t" by simp
    from walk_post_walk2[OF k this, of postArg "[]"] show ?thesis
      unfolding Node by (simp add: push_def walk_post.simps[of _ _ "[]"] split: loop.splits)
  qed
  have k1: "fst w1 = fst w" if "walk1 preRtn preArg inRtn inArg t 0 w = Exit w1" for w1
    using walk1_keeps[OF assms(1,2), of preArg inArg t 0 w w1] that by simp
  show ?thesis
    using p1 p2 k1 unfolding Node
    by (auto simp: avlUintTreeWalk_def walk_spec_def split: loop.splits option.splits)
qed


lemma ok_log_butlast: "ok_log log \<Longrightarrow> ok_log (butlast log)"
  by (auto simp: ok_log_def dest: in_set_butlastD)

lemma logged_call:
  assumes "ok_log (snd (snd w))" "call (logged_cb ord rtn) p a w = (st, w')"
  shows "(st = OK \<and> ok_log (snd (snd w'))) \<or> (st = ERROR \<and> ok_log (butlast (snd (snd w'))))"
proof (cases rtn)
  case None
  with assms show ?thesis by (simp add: call_def logged_cb_def)
next
  case (Some f)
  obtain m u log where w: "w = (m, u, log)" by (cases w) auto
  obtain st1 m1 u1 where f: "f p a (m, u) = (st1, m1, u1)" by (cases "f p a (m, u)") auto
  from assms Some w f show ?thesis
    by (cases st1) (auto simp: call_def logged_cb_def logged_def ok_log_def)
qed

lemma walk_left_log:
  assumes "pre = logged_cb ord rtn"
  shows "ok_log (snd (snd w)) \<Longrightarrow>
     (case walk_left pre preArg pNode stk w of
        Return (st, w') \<Rightarrow> st = ERROR \<and> ok_log (butlast (snd (snd w')))
      | Exit (stk', w') \<Rightarrow> ok_log (snd (snd w')))"
  using assms
proof (induction pre preArg pNode stk w rule: walk_left.induct)
  case (1 preRtn preArg pNode nodeStack w)
  note pre = \<open>preRtn = logged_cb ord rtn\<close>
  show ?case
  proof (cases pNode)
    case None
    with 1 show ?thesis by (subst walk_left.simps) simp
  next
    case (Some p)
    obtain st w' where c: "call preRtn p preArg w = (st, w')"
      by (cases "call preRtn p preArg w")
    from logged_call[OF "1.prems"(1) c[unfolded pre]] show ?thesis
    proof
      assume a: "st = OK \<and> ok_log (snd (snd w'))"
      show ?thesis
      proof (cases "length nodeStack \<ge> 2 * AVLU_MAX_HEIGHT")
        case True
        with a c Some show ?thesis
          by (subst walk_left.simps) (simp add: ok_log_butlast)
      next
        case False
        from a c have c': "(OK, w') = call preRtn p preArg w" by simp
        from False have f: "\<not> 2 * AVLU_MAX_HEIGHT \<le> length nodeStack" .
        have "case walk_left preRtn preArg (left (fst w' p)) (p # nodeStack) w' of
                Return (st, w') \<Rightarrow> st = ERROR \<and> ok_log (butlast (snd (snd w')))
              | Exit (stk', w') \<Rightarrow> ok_log (snd (snd w'))"
          using a pre by (intro "1.IH"[OF Some c' refl f]) simp_all
        with a c Some False show ?thesis
          by (subst walk_left.simps) simp
      qed
    next
      assume "st = ERROR \<and> ok_log (butlast (snd (snd w')))"
      with c Some show ?thesis by (subst walk_left.simps) simp
    qed
  qed
qed

lemma walk_pre_in_log:
  assumes "walk_pre_in (logged_cb PreOrder pre) preArg (logged_cb InOrder inr) inArg pNode stk w = Some y"
    and "ok_log (snd (snd w))"
  shows "fin y"
proof -
  have "preRtn = logged_cb PreOrder pre \<longrightarrow> inRtn = logged_cb InOrder inr \<longrightarrow>
          ok_log (snd (snd w)) \<longrightarrow> fin y"
    if "walk_pre_in preRtn preArg inRtn inArg pNode stk w = Some y" for preRtn inRtn
  proof (rule walk_pre_in.raw_induct[where P = "\<lambda>preRtn preArg inRtn inArg pNode stk w y.
      preRtn = logged_cb PreOrder pre \<longrightarrow> inRtn = logged_cb InOrder inr \<longrightarrow>
          ok_log (snd (snd w)) \<longrightarrow> fin y", OF _ that], goal_cases)
    case (1 walk_pre_in preRtn preArg inRtn inArg pNode nodeStack w y)
    show ?case
    proof (intro impI)
      assume pre: "preRtn = logged_cb PreOrder pre" and inr: "inRtn = logged_cb InOrder inr"
        and ok: "ok_log (snd (snd w))"
      show "fin y"
      proof (cases "length nodeStack < 2 * AVLU_MAX_HEIGHT")
        case False
        with 1(2) ok show ?thesis by auto
      next
        case True
        note wl = walk_left_log[OF pre ok, of preArg pNode nodeStack]
        show ?thesis
        proof (cases "walk_left preRtn preArg pNode nodeStack w")
          case (Return res)
          with wl 1(2) True show ?thesis by (cases res) auto
        next
          case (Exit v)
          obtain stk' w' where v: "v = (stk', w')" by (cases v)
          from wl Exit v have ok': "ok_log (snd (snd w'))" by simp
          show ?thesis
          proof (cases stk')
            case Nil
            with 1(2) True Exit v ok' show ?thesis by auto
          next
            case (Cons p stk'')
            obtain st w'' where c: "call inRtn p inArg w' = (st, w'')"
              by (cases "call inRtn p inArg w'")
            from logged_call[OF ok' c[unfolded inr]] show ?thesis
            proof
              assume a: "st = OK \<and> ok_log (snd (snd w''))"
              with 1(2) True Exit v Cons c
              have "walk_pre_in preRtn preArg inRtn inArg (right (fst w' p)) stk'' w'' = Some y"
                by (simp add: Let_def)
              from 1(1)[OF this] pre inr a show ?thesis by simp
            next
              assume "st = ERROR \<and> ok_log (butlast (snd (snd w'')))"
              with 1(2) True Exit v Cons c show ?thesis by (auto simp: Let_def)
            qed
          qed
        qed
      qed
    qed
  qed
  with assms show ?thesis by simp
qed

lemma walk_post_log:
  assumes "walk_post (logged PostOrder f) postArg stk w = Some y" and "ok_log (snd (snd w))"
  shows "fin y"
proof -
  have "postRtn = logged PostOrder f \<longrightarrow> ok_log (snd (snd w)) \<longrightarrow> fin y"
    if "walk_post postRtn postArg stk w = Some y" for postRtn
  proof (rule walk_post.raw_induct[where P = "\<lambda>postRtn postArg stk w y.
      postRtn = logged PostOrder f \<longrightarrow> ok_log (snd (snd w)) \<longrightarrow> fin y", OF _ that], goal_cases)
    case (1 walk_post postRtn postArg nodeStack w y)
    show ?case
    proof (intro impI)
      assume post: "postRtn = logged PostOrder f" and ok: "ok_log (snd (snd w))"
      show "fin y"
      proof (cases nodeStack)
        case Nil
        with 1(2) ok show ?thesis by auto
      next
        case (Cons pv stk')
        obtain p visited where pv: "pv = (p, visited)" by (cases pv)
        show ?thesis
        proof (cases visited)
          case False
          show ?thesis
          proof (cases "2 * AVLU_MAX_HEIGHT \<le> length ((p, True) # stk') + 2")
            case True
            with 1(2) Cons pv False ok show ?thesis
              by (auto simp: Let_def ok_log_butlast)
          next
            case nov: False
            from 1(2) Cons pv False nov obtain stk3 where
              "walk_post postRtn postArg stk3 w = Some y"
              by (auto simp: Let_def)
            from 1(1)[OF this] post ok show ?thesis by simp
          qed
        next
          case True
          have cb: "call (logged_cb PostOrder (Some f)) p postArg w = postRtn p postArg w"
            by (simp add: call_def logged_cb_def post)
          obtain st w' where c: "postRtn p postArg w = (st, w')" by (cases "postRtn p postArg w")
          from logged_call[OF ok cb[unfolded c]] show ?thesis
          proof
            assume a: "st = OK \<and> ok_log (snd (snd w'))"
            with 1(2) Cons pv True c have "walk_post postRtn postArg stk' w' = Some y" by simp
            from 1(1)[OF this] post a show ?thesis by simp
          next
            assume "st = ERROR \<and> ok_log (butlast (snd (snd w')))"
            with 1(2) Cons pv True c show ?thesis by auto
          qed
        qed
      qed
    qed
  qed
  with assms show ?thesis by simp
qed

lemma walk_log:
  assumes "avlUintTreeWalk r (logged_cb PreOrder pre) preArg (logged_cb InOrder inr) inArg
             (logged_cb PostOrder post) postArg w = Some (st, w')"
    and "ok_log (snd (snd w))"
  shows "(st = OK \<and> ok_log (snd (snd w'))) \<or> (st = ERROR \<and> ok_log (butlast (snd (snd w'))))"
proof (cases r)
  case None
  with assms show ?thesis by (simp add: avlUintTreeWalk_def)
next
  case (Some rt)
  define preRtn where "preRtn = logged_cb PreOrder pre"
  define inRtn where "inRtn = logged_cb InOrder inr"
  define postRtn where "postRtn = logged_cb PostOrder post"
  define p1 where "p1 = (if preRtn \<noteq> None \<or> inRtn \<noteq> None
               then walk_pre_in preRtn preArg inRtn inArg (Some rt) [] w else Some (Exit w))"
  have unf: "avlUintTreeWalk r preRtn preArg inRtn inArg postRtn postArg w =
      (case p1 of
         None \<Rightarrow> None
       | Some (Return res) \<Rightarrow> Some res
       | Some (Exit w1) \<Rightarrow>
          (case postRtn of
             None \<Rightarrow> Some (OK, w1)
           | Some f \<Rightarrow>
              (case walk_post f postArg [(rt, False)] w1 of
                 None \<Rightarrow> None
               | Some (Return res) \<Rightarrow> Some res
               | Some (Exit w2) \<Rightarrow> Some (OK, w2))))"
    unfolding p1_def avlUintTreeWalk_def Some by simp
  from assms(1) have run: "avlUintTreeWalk r preRtn preArg inRtn inArg postRtn postArg w = Some (st, w')"
    by (simp add: preRtn_def inRtn_def postRtn_def)
  from run obtain y1 where y1: "p1 = Some y1"
    unfolding unf by (cases p1) auto
  have f1: "fin y1"
  proof (cases "preRtn \<noteq> None \<or> inRtn \<noteq> None")
    case True
    with y1 have "walk_pre_in preRtn preArg inRtn inArg (Some rt) [] w = Some y1" by (simp add: p1_def)
    from walk_pre_in_log[OF this[unfolded preRtn_def inRtn_def] assms(2)] show ?thesis .
  next
    case False
    with y1 assms(2) show ?thesis by (auto simp: p1_def)
  qed
  show ?thesis
  proof (cases y1)
    case (Return res)
    with run[unfolded unf y1] f1 show ?thesis by (cases res) auto
  next
    case (Exit w1)
    with f1 have ok1: "ok_log (snd (snd w1))" by simp
    show ?thesis
    proof (cases post)
      case None
      then have "postRtn = None" by (simp add: postRtn_def logged_cb_def)
      with run[unfolded unf y1] Exit ok1 show ?thesis by auto
    next
      case (Some f)
      then have post: "postRtn = Some (logged PostOrder f)" by (simp add: postRtn_def logged_cb_def)
      from run[unfolded unf y1] Exit post obtain y2 where
        y2: "walk_post (logged PostOrder f) postArg [(rt, False)] w1 = Some y2"
        by (cases "walk_post (logged PostOrder f) postArg [(rt, False)] w1") auto
      with run[unfolded unf y1] Exit post
      have res: "(case y2 of Return res \<Rightarrow> res | Exit w2 \<Rightarrow> (OK, w2)) = (st, w')"
        by (cases y2) auto
      from walk_post_log[OF y2 ok1] res show ?thesis
        by (cases y2) auto
    qed
  qed
qed

lemma logged_apply:
  "f p a (m, u) = (st, m', u') \<Longrightarrow> logged ord f p a (m, u, log) = (st, m', u', log @ [Event ord p st])"
  by (simp add: logged_def)

lemma keeps_store_logged:
  assumes "keeps_store rtn"
  shows "keeps_store (logged_cb ord rtn)"
proof (cases rtn)
  case None
  then show ?thesis by (simp add: keeps_store_def logged_cb_def)
next
  case (Some f)
  have "fst (snd (logged ord f p a w)) = fst w" for p a w
  proof -
    obtain m u log where w: "w = (m, u, log)" by (cases w) auto
    obtain st m' u' where f: "f p a (m, u) = (st, m', u')" by (cases "f p a (m, u)") auto
    from assms Some have "fst (snd (f p a (m, u))) = m" by (simp add: keeps_store_def)
    with f show ?thesis by (simp add: w logged_apply[of f p a m u st m' u'])
  qed
  with Some show ?thesis by (simp add: keeps_store_def logged_cb_def)
qed

lemma insert_all_inv:
  "tree_inv s t \<Longrightarrow> hgt t \<le> int AVLU_MAX_HEIGHT \<Longrightarrow> insert_all ns s = Some s' \<Longrightarrow>
     \<exists>t'. tree_inv s' t' \<and> addrs t' = addrs t \<union> set ns \<and> hgt t' \<le> int AVLU_MAX_HEIGHT"
proof (induction ns arbitrary: s t)
  case Nil
  then show ?case by auto
next
  case (Cons n ns)
  from Cons.prems(3) obtain s1 where
    i: "avlUintInsert s (Some Root) (Some n) = Some (OK, s1)" and r: "insert_all ns s1 = Some s'"
    by (auto split: option.splits prod.splits STATUS.splits)
  from insert_cases[OF Cons.prems(1), of n] i obtain t1 xs ys where
    t1: "tree_inv s1 t1" "inorder t = xs @ ys" "inorder t1 = xs @ (n, key (mem s n)) # ys"
      "hgt t1 \<le> max (hgt t) (int AVLU_MAX_HEIGHT)"
    by auto
  from t1(2,3) have a: "addrs t1 = insert n (addrs t)" by (auto simp: addrs_def)
  from t1(4) Cons.prems(2) have h: "hgt t1 \<le> int AVLU_MAX_HEIGHT" by simp
  from Cons.IH[OF t1(1) h r] a show ?case by auto
qed

lemma insert_loop_deep:
  "rep (mem s) t \<Longrightarrow> slot_get s pp = ptr t \<Longrightarrow> k \<notin> keys t \<Longrightarrow>
     AVLU_MAX_HEIGHT \<le> cnt + ins_depth k t \<Longrightarrow> cnt \<le> AVLU_MAX_HEIGHT \<Longrightarrow>
     \<exists>pp' anc'. insert_loop s k pp anc cnt = Exit (pp', anc', AVLU_MAX_HEIGHT)"
proof (induction t arbitrary: pp anc cnt)
  case Leaf
  then show ?case by (subst insert_loop.simps) simp
next
  case (Node l a k' h r)
  show ?case
  proof (cases "cnt < AVLU_MAX_HEIGHT")
    case False
    with Node.prems show ?thesis by (subst insert_loop.simps) simp
  next
    case True
    from Node.prems(3) have ne: "k \<noteq> k'" "k \<notin> keys l" "k \<notin> keys r" by (auto simp: keys_def)
    from Node.prems(1) have m: "mem s a = \<lparr>key = k', left = ptr l, right = ptr r, height = h\<rparr>"
      "rep (mem s) l" "rep (mem s) r" by auto
    show ?thesis
    proof (cases "k < k'")
      case lt: True
      have "\<exists>pp' anc'. insert_loop s k (LeftOf a) (anc[cnt := pp]) (cnt + 1) = Exit (pp', anc', AVLU_MAX_HEIGHT)"
        using Node.prems(4) True ne lt m by (intro Node.IH(1)) auto
      with Node.prems(2) True ne lt m show ?thesis
        by (subst insert_loop.simps) simp
    next
      case ge: False
      have "\<exists>pp' anc'. insert_loop s k (RightOf a) (anc[cnt := pp]) (cnt + 1) = Exit (pp', anc', AVLU_MAX_HEIGHT)"
        using Node.prems(4) True ne ge m by (intro Node.IH(2)) auto
      with Node.prems(2) True ne ge m show ?thesis
        by (subst insert_loop.simps) simp
    qed
  qed
qed

lemma insert_capacity:
  assumes "tree_inv s t" "key (mem s n) \<notin> keys t" "AVLU_MAX_HEIGHT \<le> ins_depth (key (mem s n)) t"
  shows "avlUintInsert s (Some Root) (Some n) = Some (ERROR, s)"
proof -
  from assms(1) have "rep (mem s) t" "slot_get s Root = ptr t" by (simp_all add: tree_inv_def)
  from insert_loop_deep[OF this assms(2), of 0 ancestor_init] assms(3)
  show ?thesis by (auto simp: avlUintInsert_def)
qed

lemma store_of_other: "a \<notin> addrs t \<Longrightarrow> store_of t m a = m a"
proof (induction t arbitrary: m)
  case Leaf
  show ?case by simp
next
  case (Node l x k h r)
  then have "a \<notin> addrs l" "a \<notin> addrs r" "a \<noteq> x" by (auto simp: addrs_def)
  with Node.IH(1)[of m] Node.IH(2)[of "store_of l m"] show ?case by simp
qed

lemma rep_store_of: "owned t \<Longrightarrow> rep (store_of t m) t"
proof (induction t arbitrary: m)
  case Leaf
  show ?case by simp
next
  case (Node l a k h r)
  from Node.prems have o: "owned l" "owned r" "a \<notin> addrs l" "a \<notin> addrs r" "addrs l \<inter> addrs r = {}"
    by (auto simp: owned_def addrs_def)
  have "rep (store_of l m) l" by (rule Node.IH(1)[OF o(1)])
  then have "rep (store_of r (store_of l m)) l"
  proof (rule rep_agree, intro ballI)
    fix x assume "x \<in> addrs l"
    with o(5) have "x \<notin> addrs r" by auto
    then show "store_of r (store_of l m) x = store_of l m x" by (rule store_of_other)
  qed
  moreover have "rep (store_of r (store_of l m)) r" by (rule Node.IH(2)[OF o(2)])
  ultimately have "rep ((store_of r (store_of l m))(a := v)) l" "rep ((store_of r (store_of l m))(a := v)) r" for v
    using rep_upd[OF o(3)] rep_upd[OF o(4)] by blast+
  then show ?case unfolding store_of.simps rep.simps by simp
qed

lemma inorder_fibt: "inorder (fibt h b) = map (\<lambda>i. (i, of_nat i)) [b ..< b + fsize h]"
proof (induction h b rule: fibt.induct)
  case (1 b)
  show ?case by simp
next
  case (2 b)
  show ?case by simp
next
  case (3 h b)
  define n where "n = b + fsize (Suc h)"
  have e1: "b + fsize (Suc (Suc h)) = n + (fsize h + 1)" by (simp add: n_def)
  have e2: "n + (fsize h + 1) = n + 1 + fsize h" by simp
  have e3: "Suc n = n + 1" by simp
  have s1: "[b ..< n + (fsize h + 1)] = [b ..< n] @ [n ..< n + (fsize h + 1)]"
    by (rule upt_add_eq_append) (simp add: n_def)
  have s2: "[n ..< n + (fsize h + 1)] = n # [Suc n ..< n + (fsize h + 1)]"
    by (rule upt_conv_Cons) simp
  have u: "[b ..< b + fsize (Suc (Suc h))] = [b ..< n] @ n # [n + 1 ..< n + 1 + fsize h]"
    unfolding e1 by (subst s1, subst s2) (simp only: e2 e3)
  have "inorder (fibt (Suc (Suc h)) b) = inorder (fibt (Suc h) b) @ (n, of_nat n) # inorder (fibt h (n + 1))"
    by (simp add: n_def)
  also have "\<dots> = map (\<lambda>i. (i, of_nat i)) [b ..< n] @ (n, of_nat n) # map (\<lambda>i. (i, of_nat i)) [n + 1 ..< n + 1 + fsize h]"
    unfolding "3.IH" n_def by (rule refl)
  also have "\<dots> = map (\<lambda>i. (i, of_nat i)) [b ..< b + fsize (Suc (Suc h))]"
    unfolding u by (simp only: map_append list.map)
  finally show ?case .
qed

lemma hgt_fibt: "hgt (fibt h b) = int h"
  by (induction h b rule: fibt.induct) auto

lemma avl_fibt: "avl (fibt h b)"
  by (induction h b rule: fibt.induct) (auto simp: hgt_fibt)

lemma word_of_nat_strict:
  "i < j \<Longrightarrow> j < 2 ^ 32 \<Longrightarrow> (of_nat i :: UINT) < of_nat j"
  by (simp add: of_nat_word_less_iff take_bit_nat_eq_self)

lemma fibt_inv:
  assumes "b + fsize h \<le> 2 ^ 32"
  shows "owned (fibt h b)" "bst (fibt h b)"
proof -
  show "owned (fibt h b)" by (simp add: owned_def inorder_fibt comp_def)
  have "sorted_wrt (\<lambda>i j. (of_nat i :: UINT) < of_nat j) [b ..< b + fsize h]"
    using assms by (intro sorted_wrt_mono_rel[OF _ sorted_wrt_upt]) (auto intro: word_of_nat_strict)
  then show "bst (fibt h b)"
    by (simp add: bst_def inorder_fibt comp_def sorted_wrt_map)
qed

lemma ins_depth_left: "k < k' \<Longrightarrow> ins_depth k (Node l a k' h r) = Suc (ins_depth k l)"
  by auto

lemma word_of_nat_pos: "0 < n \<Longrightarrow> n < 2 ^ 32 \<Longrightarrow> (0 :: UINT) < of_nat n"
  using word_of_nat_strict[of 0 n] by simp

lemma ins_depth_fibt:
  "0 < b \<Longrightarrow> b + fsize h \<le> 2 ^ 32 \<Longrightarrow> ins_depth 0 (fibt h b) = h"
proof (induction h b rule: fibt.induct)
  case (1 b)
  show ?case by simp
next
  case (2 b)
  from 2 have "b < 2 ^ 32" by simp
  from word_of_nat_pos[OF "2.prems"(1) this] show ?case
    unfolding fibt.simps by (subst ins_depth_left) simp_all
next
  case (3 h b)
  from "3.prems" have n: "0 < b + fsize (Suc h)" "b + fsize (Suc h) < 2 ^ 32"
    and l: "b + fsize (Suc h) \<le> 2 ^ 32"
    by simp_all
  have "ins_depth 0 (fibt (Suc h) b) = Suc h" by (rule "3.IH"(1)[OF "3.prems"(1) l])
  with word_of_nat_pos[OF n] show ?case
    unfolding fibt.simps by (subst ins_depth_left) simp_all
qed

lemma fsize_next: "m = n + 2 \<Longrightarrow> fsize n = a \<Longrightarrow> fsize (n + 1) = b \<Longrightarrow> fsize m = b + a + 1"
  by simp

lemma fsize_MAX: "fsize AVLU_MAX_HEIGHT = 832039"
proof -
  have f0: "fsize 0 = 0" and f1: "fsize 1 = 1" by simp_all
  have f2: "fsize 2 = 2" using fsize_next[of 2 0 0 1] by (simp add: f1)
  have f3: "fsize 3 = 4" using fsize_next[of 3 1 1 2] by (simp add: f2 f1)
  have f4: "fsize 4 = 7" using fsize_next[of 4 2 2 4] by (simp add: f3 f2)
  have f5: "fsize 5 = 12" using fsize_next[of 5 3 4 7] by (simp add: f4 f3)
  have f6: "fsize 6 = 20" using fsize_next[of 6 4 7 12] by (simp add: f5 f4)
  have f7: "fsize 7 = 33" using fsize_next[of 7 5 12 20] by (simp add: f6 f5)
  have f8: "fsize 8 = 54" using fsize_next[of 8 6 20 33] by (simp add: f7 f6)
  have f9: "fsize 9 = 88" using fsize_next[of 9 7 33 54] by (simp add: f8 f7)
  have f10: "fsize 10 = 143" using fsize_next[of 10 8 54 88] by (simp add: f9 f8)
  have f11: "fsize 11 = 232" using fsize_next[of 11 9 88 143] by (simp add: f10 f9)
  have f12: "fsize 12 = 376" using fsize_next[of 12 10 143 232] by (simp add: f11 f10)
  have f13: "fsize 13 = 609" using fsize_next[of 13 11 232 376] by (simp add: f12 f11)
  have f14: "fsize 14 = 986" using fsize_next[of 14 12 376 609] by (simp add: f13 f12)
  have f15: "fsize 15 = 1596" using fsize_next[of 15 13 609 986] by (simp add: f14 f13)
  have f16: "fsize 16 = 2583" using fsize_next[of 16 14 986 1596] by (simp add: f15 f14)
  have f17: "fsize 17 = 4180" using fsize_next[of 17 15 1596 2583] by (simp add: f16 f15)
  have f18: "fsize 18 = 6764" using fsize_next[of 18 16 2583 4180] by (simp add: f17 f16)
  have f19: "fsize 19 = 10945" using fsize_next[of 19 17 4180 6764] by (simp add: f18 f17)
  have f20: "fsize 20 = 17710" using fsize_next[of 20 18 6764 10945] by (simp add: f19 f18)
  have f21: "fsize 21 = 28656" using fsize_next[of 21 19 10945 17710] by (simp add: f20 f19)
  have f22: "fsize 22 = 46367" using fsize_next[of 22 20 17710 28656] by (simp add: f21 f20)
  have f23: "fsize 23 = 75024" using fsize_next[of 23 21 28656 46367] by (simp add: f22 f21)
  have f24: "fsize 24 = 121392" using fsize_next[of 24 22 46367 75024] by (simp add: f23 f22)
  have f25: "fsize 25 = 196417" using fsize_next[of 25 23 75024 121392] by (simp add: f24 f23)
  have f26: "fsize 26 = 317810" using fsize_next[of 26 24 121392 196417] by (simp add: f25 f24)
  have f27: "fsize 27 = 514228" using fsize_next[of 27 25 196417 317810] by (simp add: f26 f25)
  have f28: "fsize 28 = 832039" using fsize_next[of 28 26 317810 514228] by (simp add: f27 f26)
  from f28 show ?thesis by (simp add: AVLU_MAX_HEIGHT_def)
qed

lemma keys_fibt: "keys (fibt h b) = (\<lambda>i. of_nat i) ` {b ..< b + fsize h}"
  by (simp add: keys_def inorder_fibt image_image)

lemma addrs_fibt: "addrs (fibt h b) = {b ..< b + fsize h}"
  by (simp add: addrs_def inorder_fibt image_image)

lemma visits_simps [simp]:
  "visits ord [] = []"
  "visits ord (log @ log') = visits ord log @ visits ord log'"
  "visits ord [Event ord' p st] = (if ord' = ord then [p] else [])"
  by (simp_all add: visits_def)

lemma harmless_keeps: "harmless rtn \<Longrightarrow> keeps_store rtn"
  by (cases rtn) (simp_all add: harmless_def keeps_store_def)

lemma harmless_call:
  assumes "harmless rtn"
  shows "\<exists>u1. call (logged_cb ord rtn) p a (m, u, log) =
           (OK, m, u1, log @ (if rtn = None then [] else [Event ord p OK]))"
proof (cases rtn)
  case None
  then show ?thesis by (simp add: call_def logged_cb_def)
next
  case (Some f)
  obtain st m1 u1 where f: "f p a (m, u) = (st, m1, u1)" by (cases "f p a (m, u)") auto
  from assms Some have "fst (f p a (m, u)) = OK" "fst (snd (f p a (m, u))) = m"
    by (simp_all add: harmless_def)
  with f have "st = OK" "m1 = m" by simp_all
  with f Some show ?thesis
    by (simp add: call_def logged_cb_def logged_apply[of f p a m u OK m u1])
qed

lemma walk1_visits:
  assumes pre: "harmless preRtn" and inr: "harmless inRtn"
  shows "int d + hgt t \<le> 2 * int AVLU_MAX_HEIGHT \<Longrightarrow>
     \<exists>u' log'. walk1 (logged_cb PreOrder preRtn) preArg (logged_cb InOrder inRtn) inArg t d (m, u, log) =
                 Exit (m, u', log') \<and>
               visits InOrder log' =
                 visits InOrder log @ (if inRtn = None then [] else map fst (inorder t))"
proof (induction t arbitrary: d u log)
  case Leaf
  then show ?case by simp
next
  case (Node l a k h r)
  have nn: "0 \<le> hgt l" "0 \<le> hgt r" by (rule hgt_nonneg)+
  from Node.prems nn have d: "\<not> 2 * AVLU_MAX_HEIGHT \<le> d" by auto
  from harmless_call[OF pre, of PreOrder a preArg m u log] obtain u0 where
    c0: "call (logged_cb PreOrder preRtn) a preArg (m, u, log) =
           (OK, m, u0, log @ (if preRtn = None then [] else [Event PreOrder a OK]))"
    by blast
  define log0 where "log0 = log @ (if preRtn = None then [] else [Event PreOrder a OK])"
  have v0: "visits InOrder log0 = visits InOrder log" by (simp add: log0_def)
  from Node.prems nn have "int (Suc d) + hgt l \<le> 2 * int AVLU_MAX_HEIGHT" by auto
  from Node.IH(1)[OF this, of u0 log0] obtain u1 log1 where
    l: "walk1 (logged_cb PreOrder preRtn) preArg (logged_cb InOrder inRtn) inArg l (Suc d) (m, u0, log0) =
          Exit (m, u1, log1)"
    and v1: "visits InOrder log1 = visits InOrder log0 @ (if inRtn = None then [] else map fst (inorder l))"
    by blast
  from harmless_call[OF inr, of InOrder a inArg m u1 log1] obtain u2 where
    c2: "call (logged_cb InOrder inRtn) a inArg (m, u1, log1) =
           (OK, m, u2, log1 @ (if inRtn = None then [] else [Event InOrder a OK]))"
    by blast
  define log2 where "log2 = log1 @ (if inRtn = None then [] else [Event InOrder a OK])"
  from Node.prems nn have "int d + hgt r \<le> 2 * int AVLU_MAX_HEIGHT" by auto
  from Node.IH(2)[OF this, of u2 log2] obtain u3 log3 where
    r: "walk1 (logged_cb PreOrder preRtn) preArg (logged_cb InOrder inRtn) inArg r d (m, u2, log2) =
          Exit (m, u3, log3)"
    and v3: "visits InOrder log3 = visits InOrder log2 @ (if inRtn = None then [] else map fst (inorder r))"
    by blast
  have "walk1 (logged_cb PreOrder preRtn) preArg (logged_cb InOrder inRtn) inArg (Node l a k h r) d (m, u, log) =
      Exit (m, u3, log3)"
    using d c0 l c2 r by (simp add: log0_def log2_def)
  moreover have "visits InOrder log3 =
      visits InOrder log @ (if inRtn = None then [] else map fst (inorder (Node l a k h r)))"
    using v0 v1 v3 by (simp add: log2_def)
  ultimately show ?case by blast
qed

lemma walk2_visits:
  assumes post: "harmless (Some f)"
  shows "\<exists>u' log'.
           (walk2 (logged PostOrder f) postArg t d (m, u, log) = Exit (m, u', log') \<or>
            walk2 (logged PostOrder f) postArg t d (m, u, log) = Return (ERROR, m, u', log')) \<and>
           visits InOrder log' = visits InOrder log"
proof (induction t arbitrary: d u log)
  case Leaf
  show ?case by simp
next
  case (Node l a k h r)
  let ?dl = "if r = Leaf then Suc d else Suc (Suc d)"
  show ?case
  proof (cases "2 * AVLU_MAX_HEIGHT \<le> Suc d + 2")
    case True
    then show ?thesis by auto
  next
    case False
    from Node.IH(1)[of ?dl u log] obtain u1 log1 where
      l: "walk2 (logged PostOrder f) postArg l ?dl (m, u, log) = Exit (m, u1, log1) \<or>
          walk2 (logged PostOrder f) postArg l ?dl (m, u, log) = Return (ERROR, m, u1, log1)"
      and v1: "visits InOrder log1 = visits InOrder log"
      by blast
    from l show ?thesis
    proof
      assume "walk2 (logged PostOrder f) postArg l ?dl (m, u, log) = Return (ERROR, m, u1, log1)"
      with False v1 show ?thesis by auto
    next
      assume l': "walk2 (logged PostOrder f) postArg l ?dl (m, u, log) = Exit (m, u1, log1)"
      from Node.IH(2)[of "Suc d" u1 log1] obtain u2 log2 where
        r: "walk2 (logged PostOrder f) postArg r (Suc d) (m, u1, log1) = Exit (m, u2, log2) \<or>
            walk2 (logged PostOrder f) postArg r (Suc d) (m, u1, log1) = Return (ERROR, m, u2, log2)"
        and v2: "visits InOrder log2 = visits InOrder log1"
        by blast
      from r show ?thesis
      proof
        assume "walk2 (logged PostOrder f) postArg r (Suc d) (m, u1, log1) = Return (ERROR, m, u2, log2)"
        with False l' v1 v2 show ?thesis by auto
      next
        assume r': "walk2 (logged PostOrder f) postArg r (Suc d) (m, u1, log1) = Exit (m, u2, log2)"
        from harmless_call[OF post, of PostOrder a postArg m u2 log2] obtain u3 where
          "logged PostOrder f a postArg (m, u2, log2) = (OK, m, u3, log2 @ [Event PostOrder a OK])"
          by (auto simp: call_def logged_cb_def)
        with False l' r' v1 v2 show ?thesis by auto
      qed
    qed
  qed
qed

lemma ex_inv: "tree_inv ex_state ex_tree"
  by (simp add: tree_inv_def ex_state_def ex_tree_def ex_mem_def)

lemmas eval_defs =
  avlUintInsert_def avlUintDelete_def insert_loop.simps delete_loop.simps pred_loop.simps
  rebalance_body_def Let_def AVLU_MAX_HEIGHT_def ancestor_init_def upd_defs

lemma ex_insert: "\<exists>s'. avlUintInsert ex_state (Some Root) (Some 5) = Some (OK, s')"
  by (simp add: eval_defs ex_state_def ex_mem_def)

lemma ex_delete: "\<exists>s'. avlUintDelete ex_state (Some Root) 20 = Some (Some 2, s')"
  by (simp add: eval_defs ex_state_def ex_mem_def)

lemma rot_inv:
  "tree_inv (rot_state 11) (rot_tree 11)" "tree_inv (rot_state 21) (rot_tree 21)"
  "tree_inv (rot_state 31) (rot_tree 31)" "tree_inv (rot_state 41) (rot_tree 41)"
  "tree_inv (rot_state 51) (rot_tree 51)" "tree_inv (rot_state 61) (rot_tree 61)"
  by (simp_all add: tree_inv_def rot_state_def rot_tree_def rot_mem_def bst_def owned_def)

lemma rot_insert:
  "\<exists>s'. avlUintInsert (rot_state 11) (Some Root) (Some 13) = Some (OK, s') \<and> root s' = Some 12"
  "\<exists>s'. avlUintInsert (rot_state 11) (Some Root) (Some 14) = Some (OK, s') \<and> root s' = Some 14"
  "\<exists>s'. avlUintInsert (rot_state 21) (Some Root) (Some 23) = Some (OK, s') \<and> root s' = Some 22"
  "\<exists>s'. avlUintInsert (rot_state 21) (Some Root) (Some 24) = Some (OK, s') \<and> root s' = Some 24"
  by (simp_all add: eval_defs rot_state_def rot_mem_def)

lemma rot_delete:
  "\<exists>s'. avlUintDelete (rot_state 31) (Some Root) 30 = Some (Some 34, s') \<and> root s' = Some 32"
  "\<exists>s'. avlUintDelete (rot_state 41) (Some Root) 30 = Some (Some 44, s') \<and> root s' = Some 43"
  "\<exists>s'. avlUintDelete (rot_state 51) (Some Root) 10 = Some (Some 52, s') \<and> root s' = Some 53"
  "\<exists>s'. avlUintDelete (rot_state 61) (Some Root) 10 = Some (Some 62, s') \<and> root s' = Some 64"
  by (simp_all add: eval_defs rot_state_def rot_mem_def)

text \<open>
  C1. Starting from a store that holds a tree satisfying the invariants (\<open>tree_inv\<close>: the
  store represents a tree \<open>t\<close> from the root pointer, no node occurs twice, the keys are
  strictly increasing in order, and \<open>avl t\<close>: at every node the two subtree heights differ
  by at most one and the stored height is one more than the larger of them, an absent
  child counting as height 0), every call of avlUintInsert that returns OK and every call
  of avlUintDelete that returns a node leaves a store that again holds such a tree.
\<close>

theorem balance_invariant_preserved:
  assumes "tree_inv s t"
  shows "(avlUintInsert s (Some Root) (Some n) = Some (OK, s1) \<longrightarrow> (\<exists>t'. tree_inv s1 t' \<and> avl t')) \<and>
         (avlUintDelete s (Some Root) k = Some (Some d, s2) \<longrightarrow> (\<exists>t'. tree_inv s2 t' \<and> avl t'))"
proof (intro conjI impI)
  assume "avlUintInsert s (Some Root) (Some n) = Some (OK, s1)"
  with insert_cases[OF assms, of n] show "\<exists>t'. tree_inv s1 t' \<and> avl t'"
    by (auto simp: tree_inv_def)
next
  assume "avlUintDelete s (Some Root) k = Some (Some d, s2)"
  with delete_cases[OF assms, of k] show "\<exists>t'. tree_inv s2 t' \<and> avl t'"
    by (auto simp: tree_inv_def)
qed

theorem balance_invariant_preserved_witness:
  "tree_inv ex_state ex_tree \<and>
   (\<exists>s1 t'. avlUintInsert ex_state (Some Root) (Some 5) = Some (OK, s1) \<and> tree_inv s1 t' \<and> avl t') \<and>
   (\<exists>s2 t'. avlUintDelete ex_state (Some Root) 20 = Some (Some 2, s2) \<and> tree_inv s2 t' \<and> avl t')"
proof -
  from ex_insert obtain s1 where 1: "avlUintInsert ex_state (Some Root) (Some 5) = Some (OK, s1)" ..
  from ex_delete obtain s2 where 2: "avlUintDelete ex_state (Some Root) 20 = Some (Some 2, s2)" ..
  from balance_invariant_preserved[OF ex_inv, of 5 s1 20 2 s2] 1 2 ex_inv show ?thesis by blast
qed

text \<open>
  C2. On a tree satisfying the invariants, if a node with key \<open>k\<close> is present and the
  descent records fewer than AVLU_MAX_HEIGHT ancestor slots (\<open>del_depth k t\<close> is the number
  of slots the two descents of avlUintDelete record for \<open>k\<close>; it is at most the height of
  the tree), avlUintDelete returns the node \<open>a\<close> that holds \<open>k\<close>, the store again holds a
  valid tree, its nodes in order are the old ones without \<open>a\<close>, its key set is the old one
  without \<open>k\<close>, \<open>a\<close> is not a node of it, and avlUintSearch still finds every other key at
  the node that held it. If no node holds \<open>k\<close>, avlUintDelete returns NULL and the store is
  the one it was given.
\<close>

theorem delete_correct:
  assumes "tree_inv s t"
  shows "(k \<in> keys t \<longrightarrow> del_depth k t < AVLU_MAX_HEIGHT \<longrightarrow>
            (\<exists>a s' t' xs ys. avlUintDelete s (Some Root) k = Some (Some a, s') \<and>
               inorder t = xs @ (a, k) # ys \<and> tree_inv s' t' \<and> inorder t' = xs @ ys \<and>
               keys t' = keys t - {k} \<and> a \<notin> addrs t' \<and>
               (\<forall>b k'. (b, k') \<in> set (inorder t) \<and> k' \<noteq> k \<longrightarrow>
                  avlUintSearch s' (root s') k' = Some (Some b, s')) \<and>
               avlUintSearch s' (root s') k = Some (None, s'))) \<and>
         (k \<notin> keys t \<longrightarrow> avlUintDelete s (Some Root) k = Some (None, s))"
proof (intro conjI impI)
  assume "k \<notin> keys t"
  with delete_cases[OF assms, of k] show "avlUintDelete s (Some Root) k = Some (None, s)"
    by auto
next
  assume k: "k \<in> keys t" "del_depth k t < AVLU_MAX_HEIGHT"
  with delete_cases[OF assms, of k] obtain s' t' a xs ys where
    r: "avlUintDelete s (Some Root) k = Some (Some a, s')" "tree_inv s' t'"
      "inorder t = xs @ (a, k) # ys" "inorder t' = xs @ ys"
    by auto
  from assms have i: "owned t" "bst t" by (simp_all add: tree_inv_def)
  from r(2) have i': "rep (mem s') t'" "root s' = ptr t'" "bst t'" by (simp_all add: tree_inv_def)
  have nk: "k \<notin> keys t'"
    using bst_keys_distinct[OF i(2) r(3)] r(4) by (simp add: keys_def)
  then have keys: "keys t' = keys t - {k}"
    using r(3,4) by (auto simp: keys_def)
  have na: "a \<notin> addrs t'"
    using owned_addrs_distinct[OF i(1) r(3)] r(4) by (simp add: addrs_def)
  have search: "avlUintSearch s' (root s') k' = Some (lookup t' k', s')" for k'
    using search_loop_rep[OF i'(1), of k'] i'(2) by (simp add: avlUintSearch_def)
  have "avlUintSearch s' (root s') k' = Some (Some b, s')" if "(b, k') \<in> set (inorder t) \<and> k' \<noteq> k" for b k'
  proof -
    from that have "(b, k') \<in> set (inorder t')" using r(3,4) by auto
    from lookup_bst[OF i'(3) this] show ?thesis by (simp add: search)
  qed
  moreover have "avlUintSearch s' (root s') k = Some (None, s')"
    using lookup_None[OF nk] by (simp add: search)
  ultimately show "\<exists>a s' t' xs ys. avlUintDelete s (Some Root) k = Some (Some a, s') \<and>
               inorder t = xs @ (a, k) # ys \<and> tree_inv s' t' \<and> inorder t' = xs @ ys \<and>
               keys t' = keys t - {k} \<and> a \<notin> addrs t' \<and>
               (\<forall>b k'. (b, k') \<in> set (inorder t) \<and> k' \<noteq> k \<longrightarrow>
                  avlUintSearch s' (root s') k' = Some (Some b, s')) \<and>
               avlUintSearch s' (root s') k = Some (None, s')"
    using r keys na by blast
qed

theorem delete_correct_witness:
  "tree_inv ex_state ex_tree \<and> 20 \<in> keys ex_tree \<and> del_depth 20 ex_tree < AVLU_MAX_HEIGHT \<and>
   7 \<notin> keys ex_tree \<and>
   (\<exists>a s' t'. avlUintDelete ex_state (Some Root) 20 = Some (Some a, s') \<and> tree_inv s' t' \<and>
      keys t' = keys ex_tree - {20} \<and> a \<notin> addrs t') \<and>
   avlUintDelete ex_state (Some Root) 7 = Some (None, ex_state)"
proof -
  have 1: "20 \<in> keys ex_tree" "del_depth 20 ex_tree < AVLU_MAX_HEIGHT" "7 \<notin> keys ex_tree"
    by (simp_all add: ex_tree_def AVLU_MAX_HEIGHT_def)
  from delete_correct[OF ex_inv, of 20, THEN conjunct1, rule_format, OF 1(1,2)]
  have 2: "\<exists>a s' t'. avlUintDelete ex_state (Some Root) 20 = Some (Some a, s') \<and> tree_inv s' t' \<and>
      keys t' = keys ex_tree - {20} \<and> a \<notin> addrs t'"
    by blast
  from delete_correct[OF ex_inv, of 7, THEN conjunct2, rule_format, OF 1(3)]
  have 3: "avlUintDelete ex_state (Some Root) 7 = Some (None, ex_state)" .
  from 1 2 3 ex_inv show ?thesis by simp
qed

text \<open>
  C3. On a tree satisfying the invariants and for every key \<open>k\<close>, in the tree or not,
  avlUintSuccessorGet returns the node with the smallest key greater than \<open>k\<close>, or NULL
  when no key of the tree is greater; avlUintPredecessorGet returns the node with the
  largest key less than \<open>k\<close>, or NULL when no key of the tree is less. Both return the
  store they were given.
\<close>

theorem successor_predecessor_correct:
  assumes "tree_inv s t"
  shows "(\<exists>r. avlUintSuccessorGet s (root s) k = Some (r, s) \<and>
            (case r of
               None \<Rightarrow> \<not> (\<exists>x \<in> keys t. k < x)
             | Some a \<Rightarrow> \<exists>k'. (a, k') \<in> set (inorder t) \<and> k < k' \<and>
                          \<not> (\<exists>x \<in> keys t. k < x \<and> x < k'))) \<and>
         (\<exists>r. avlUintPredecessorGet s (root s) k = Some (r, s) \<and>
            (case r of
               None \<Rightarrow> \<not> (\<exists>x \<in> keys t. x < k)
             | Some a \<Rightarrow> \<exists>k'. (a, k') \<in> set (inorder t) \<and> k' < k \<and>
                          \<not> (\<exists>x \<in> keys t. x < k \<and> k' < x)))"
proof -
  from assms have i: "rep (mem s) t" "root s = ptr t" "bst t" by (simp_all add: tree_inv_def)
  let ?S = "find (\<lambda>x. k < snd x) (inorder t)"
  let ?P = "find (\<lambda>x. snd x < k) (rev (inorder t))"
  have 1: "avlUintSuccessorGet s (root s) k = Some (map_option fst ?S, s)"
    using successor_loop_rep[OF i(1,3), of k None] i(2)
    by (simp add: avlUintSuccessorGet_def split: option.splits)
  have 2: "avlUintPredecessorGet s (root s) k = Some (map_option fst ?P, s)"
    using predecessor_loop_rep[OF i(1,3), of k None] i(2)
    by (simp add: avlUintPredecessorGet_def split: option.splits)
  have succ: "case map_option fst ?S of
               None \<Rightarrow> \<not> (\<exists>x \<in> keys t. k < x)
             | Some a \<Rightarrow> \<exists>k'. (a, k') \<in> set (inorder t) \<and> k < k' \<and>
                          \<not> (\<exists>x \<in> keys t. k < x \<and> x < k')"
  proof (cases ?S)
    case None
    then have "\<forall>x \<in> set (inorder t). \<not> k < snd x" by (auto simp: find_None_iff)
    then show ?thesis unfolding None by (auto simp: keys_def)
  next
    case (Some x)
    obtain a k' where x: "x = (a, k')" by (cases x)
    from find_sorted_first[OF i(3)[unfolded bst_def] Some]
    have f: "(a, k') \<in> set (inorder t)" "k < k'" "\<forall>y \<in> set (inorder t). k < snd y \<longrightarrow> k' \<le> snd y"
      unfolding x by auto
    from f(3) have "\<not> (\<exists>z \<in> keys t. k < z \<and> z < k')"
      unfolding keys_def by (auto simp: not_less)
    with f(1,2) show ?thesis unfolding Some x by auto
  qed
  have pred: "case map_option fst ?P of
               None \<Rightarrow> \<not> (\<exists>x \<in> keys t. x < k)
             | Some a \<Rightarrow> \<exists>k'. (a, k') \<in> set (inorder t) \<and> k' < k \<and>
                          \<not> (\<exists>x \<in> keys t. x < k \<and> k' < x)"
  proof (cases ?P)
    case None
    then have "\<forall>x \<in> set (inorder t). \<not> snd x < k" by (auto simp: find_None_iff)
    then show ?thesis unfolding None by (auto simp: keys_def)
  next
    case (Some x)
    obtain a k' where x: "x = (a, k')" by (cases x)
    from find_sorted_last[OF i(3)[unfolded bst_def] Some]
    have f: "(a, k') \<in> set (inorder t)" "k' < k" "\<forall>y \<in> set (inorder t). snd y < k \<longrightarrow> snd y \<le> k'"
      unfolding x by auto
    from f(3) have "\<not> (\<exists>z \<in> keys t. z < k \<and> k' < z)"
      unfolding keys_def by (auto simp: not_less)
    with f(1,2) show ?thesis unfolding Some x by auto
  qed
  from 1 2 succ pred show ?thesis by blast
qed

theorem successor_predecessor_correct_witness:
  "tree_inv ex_state ex_tree \<and>
   avlUintSuccessorGet ex_state (root ex_state) 20 = Some (Some 3, ex_state) \<and>
   avlUintPredecessorGet ex_state (root ex_state) 20 = Some (Some 1, ex_state) \<and>
   avlUintSuccessorGet ex_state (root ex_state) 30 = Some (None, ex_state)"
proof -
  have io: "inorder ex_tree = [(1, 10), (2, 20), (3, 30)]" "keys ex_tree = {10, 20, 30}"
    by (auto simp: ex_tree_def)
  from successor_predecessor_correct[OF ex_inv, of 20]
  have "avlUintSuccessorGet ex_state (root ex_state) 20 = Some (Some 3, ex_state)"
    "avlUintPredecessorGet ex_state (root ex_state) 20 = Some (Some 1, ex_state)"
    unfolding io by (auto split: option.splits)
  moreover from successor_predecessor_correct[OF ex_inv, of 30]
  have "avlUintSuccessorGet ex_state (root ex_state) 30 = Some (None, ex_state)"
    unfolding io by (auto split: option.splits)
  ultimately show ?thesis using ex_inv by simp
qed

text \<open>
  C4. On a tree satisfying the invariants, inserting a node whose key is already the key
  of a node of the tree returns ERROR, and the store (root pointer, every link, every
  height, the fields of the new node included) is the one the call was given.
\<close>

theorem insert_duplicate_rejected:
  assumes "tree_inv s t" and "key (mem s n) \<in> keys t"
  shows "avlUintInsert s (Some Root) (Some n) = Some (ERROR, s)"
  using insert_cases[OF assms(1), of n] assms(2) by auto

theorem insert_duplicate_rejected_witness:
  "tree_inv ex_state ex_tree \<and> key (mem ex_state 4) \<in> keys ex_tree \<and>
   avlUintInsert ex_state (Some Root) (Some 4) = Some (ERROR, ex_state)"
proof -
  have 1: "key (mem ex_state 4) \<in> keys ex_tree"
    by (simp add: ex_state_def ex_mem_def ex_tree_def)
  from insert_duplicate_rejected[OF ex_inv 1] ex_inv 1 show ?thesis by simp
qed

text \<open>
  C9. On a tree satisfying the invariants, neither avlUintInsert nor avlUintDelete
  dereferences \<open>NULL\<close>. In the model a call has the value \<open>None\<close> exactly when it
  dereferences \<open>NULL\<close>, and every result of avlUintRebalance is passed on unchanged, so
  the left child read in the left-heavy branch, the left child's right child read in
  its double rotation, and their mirror images are all present whenever insert or
  delete reach the rebalancing loop.
\<close>

theorem rebalance_no_null_dereference:
  assumes "tree_inv s t"
  shows "(\<exists>st s'. avlUintInsert s (Some Root) (Some n) = Some (st, s')) \<and>
         (\<exists>d s'. avlUintDelete s (Some Root) k = Some (d, s'))"
  using insert_cases[OF assms, of n] delete_cases[OF assms, of k] by blast

theorem rebalance_no_null_dereference_witness:
  "tree_inv (rot_state 11) (rot_tree 11) \<and> tree_inv (rot_state 21) (rot_tree 21) \<and>
   tree_inv (rot_state 31) (rot_tree 31) \<and> tree_inv (rot_state 41) (rot_tree 41) \<and>
   tree_inv (rot_state 51) (rot_tree 51) \<and> tree_inv (rot_state 61) (rot_tree 61) \<and>
   (\<exists>s'. avlUintInsert (rot_state 11) (Some Root) (Some 13) = Some (OK, s') \<and> root s' = Some 12) \<and>
   (\<exists>s'. avlUintInsert (rot_state 11) (Some Root) (Some 14) = Some (OK, s') \<and> root s' = Some 14) \<and>
   (\<exists>s'. avlUintInsert (rot_state 21) (Some Root) (Some 23) = Some (OK, s') \<and> root s' = Some 22) \<and>
   (\<exists>s'. avlUintInsert (rot_state 21) (Some Root) (Some 24) = Some (OK, s') \<and> root s' = Some 24) \<and>
   (\<exists>s'. avlUintDelete (rot_state 31) (Some Root) 30 = Some (Some 34, s') \<and> root s' = Some 32) \<and>
   (\<exists>s'. avlUintDelete (rot_state 41) (Some Root) 30 = Some (Some 44, s') \<and> root s' = Some 43) \<and>
   (\<exists>s'. avlUintDelete (rot_state 51) (Some Root) 10 = Some (Some 52, s') \<and> root s' = Some 53) \<and>
   (\<exists>s'. avlUintDelete (rot_state 61) (Some Root) 10 = Some (Some 62, s') \<and> root s' = Some 64)"
  using rebalance_no_null_dereference[OF rot_inv(1), of 13 30]
    rebalance_no_null_dereference[OF rot_inv(1), of 14 30]
    rebalance_no_null_dereference[OF rot_inv(2), of 23 30]
    rebalance_no_null_dereference[OF rot_inv(2), of 24 30]
    rebalance_no_null_dereference[OF rot_inv(3), of 13 30]
    rebalance_no_null_dereference[OF rot_inv(4), of 13 30]
    rebalance_no_null_dereference[OF rot_inv(5), of 13 10]
    rebalance_no_null_dereference[OF rot_inv(6), of 13 10]
    rot_inv rot_insert rot_delete
  by simp




text \<open>
  C7. Starting from an empty tree, inserting three distinct nodes whose keys are 10, 20
  and 30, in that order, succeeds three times; afterwards the root is the node with key
  20, of height 2, its left child is the node with key 10 and its right child the node
  with key 30, both leaves of height 1.
\<close>

theorem insert_10_20_30:
  assumes "distinct [n1, n2, n3]" and "root s0 = None"
    and "key (mem s0 n1) = 10" and "key (mem s0 n2) = 20" and "key (mem s0 n3) = 30"
  shows "\<exists>s1 s2 s3.
           avlUintInsert s0 (Some Root) (Some n1) = Some (OK, s1) \<and>
           avlUintInsert s1 (Some Root) (Some n2) = Some (OK, s2) \<and>
           avlUintInsert s2 (Some Root) (Some n3) = Some (OK, s3) \<and>
           root s3 = Some n2 \<and>
           mem s3 n2 = \<lparr>key = 20, left = Some n1, right = Some n3, height = 2\<rparr> \<and>
           mem s3 n1 = \<lparr>key = 10, left = None, right = None, height = 1\<rparr> \<and>
           mem s3 n3 = \<lparr>key = 30, left = None, right = None, height = 1\<rparr>"
proof -
  define s1 where "s1 = s0\<lparr>root := Some n1,
      mem := (mem s0)(n1 := \<lparr>key = 10, left = None, right = None, height = 1\<rparr>)\<rparr>"
  define s2 where "s2 = s0\<lparr>root := Some n1,
      mem := (mem s0)(n2 := \<lparr>key = 20, left = None, right = None, height = 1\<rparr>,
                      n1 := \<lparr>key = 10, left = None, right = Some n2, height = 2\<rparr>)\<rparr>"
  have 1: "avlUintInsert s0 (Some Root) (Some n1) = Some (OK, s1)"
    using assms by (cases "mem s0 n1") (simp add: eval_defs s1_def)
  have 2: "avlUintInsert s1 (Some Root) (Some n2) = Some (OK, s2)"
    using assms by (cases "mem s0 n2") (simp add: eval_defs s1_def s2_def)
  have 3: "\<exists>s3. avlUintInsert s2 (Some Root) (Some n3) = Some (OK, s3) \<and>
           root s3 = Some n2 \<and>
           mem s3 n2 = \<lparr>key = 20, left = Some n1, right = Some n3, height = 2\<rparr> \<and>
           mem s3 n1 = \<lparr>key = 10, left = None, right = None, height = 1\<rparr> \<and>
           mem s3 n3 = \<lparr>key = 30, left = None, right = None, height = 1\<rparr>"
    using assms by (cases "mem s0 n3") (simp add: eval_defs s2_def)
  from 1 2 3 show ?thesis by blast
qed

theorem insert_10_20_30_witness:
  "distinct [1, 2, 3 :: addr] \<and> root (ex_state\<lparr>root := None\<rparr>) = None \<and>
   key (mem (ex_state\<lparr>root := None\<rparr>) 1) = 10 \<and> key (mem (ex_state\<lparr>root := None\<rparr>) 2) = 20 \<and>
   key (mem (ex_state\<lparr>root := None\<rparr>) 3) = 30 \<and>
   (\<exists>s1 s2 s3.
      avlUintInsert (ex_state\<lparr>root := None\<rparr>) (Some Root) (Some 1) = Some (OK, s1) \<and>
      avlUintInsert s1 (Some Root) (Some 2) = Some (OK, s2) \<and>
      avlUintInsert s2 (Some Root) (Some 3) = Some (OK, s3) \<and>
      root s3 = Some 2 \<and>
      mem s3 2 = \<lparr>key = 20, left = Some 1, right = Some 3, height = 2\<rparr>)"
proof -
  have h: "distinct [1, 2, 3 :: addr]" "root (ex_state\<lparr>root := None\<rparr>) = None"
    "key (mem (ex_state\<lparr>root := None\<rparr>) 1) = 10" "key (mem (ex_state\<lparr>root := None\<rparr>) 2) = 20"
    "key (mem (ex_state\<lparr>root := None\<rparr>) 3) = 30"
    by (simp_all add: ex_state_def ex_mem_def)
  from insert_10_20_30[OF h] h show ?thesis by blast
qed

lemma ex_insert_all: "\<exists>s. insert_all [1, 2, 3] (ex_state\<lparr>root := None\<rparr>) = Some s"
  by (simp add: eval_defs ex_state_def ex_mem_def)

lemma ex_rep: "rep ex_mem ex_tree"
  by (simp add: ex_tree_def ex_mem_def)

lemma ex_walk_in_error:
  "avlUintTreeWalk (Some 2)
     (logged_cb PreOrder (Some (\<lambda>p a w. (OK, w)))) ()
     (logged_cb InOrder (Some (\<lambda>p a w. (if p = 2 then ERROR else OK, w)))) ()
     (logged_cb PostOrder (Some (\<lambda>p a w. (OK, w)))) () (ex_mem, (), []) =
   Some (ERROR, ex_mem, (),
     [Event PreOrder 2 OK, Event PreOrder 1 OK, Event InOrder 1 OK, Event InOrder 2 ERROR])"
proof -
  have "avlUintTreeWalk (ptr ex_tree)
     (logged_cb PreOrder (Some (\<lambda>p a w. (OK, w)))) ()
     (logged_cb InOrder (Some (\<lambda>p a w. (if p = 2 then ERROR else OK, w)))) ()
     (logged_cb PostOrder (Some (\<lambda>p a w. (OK, w)))) () (ex_mem, (), []) =
    Some (walk_spec
     (logged_cb PreOrder (Some (\<lambda>p a w. (OK, w)))) ()
     (logged_cb InOrder (Some (\<lambda>p a w. (if p = 2 then ERROR else OK, w)))) ()
     (logged_cb PostOrder (Some (\<lambda>p a w. (OK, w)))) () ex_tree (ex_mem, (), []))"
    by (intro walk_total keeps_store_logged) (simp_all add: keeps_store_def ex_rep)
  then show ?thesis
    by (simp add: ex_tree_def walk_spec_def call_def logged_cb_def logged_def AVLU_MAX_HEIGHT_def)
qed

lemma ex_walk_post_error:
  "avlUintTreeWalk (Some 2)
     (logged_cb PreOrder None) () (logged_cb InOrder None) ()
     (logged_cb PostOrder (Some (\<lambda>p a w. (if p = 3 then ERROR else OK, w)))) () (ex_mem, (), []) =
   Some (ERROR, ex_mem, (), [Event PostOrder 1 OK, Event PostOrder 3 ERROR])"
proof -
  have "avlUintTreeWalk (ptr ex_tree)
     (logged_cb PreOrder None) () (logged_cb InOrder None) ()
     (logged_cb PostOrder (Some (\<lambda>p a w. (if p = 3 then ERROR else OK, w)))) () (ex_mem, (), []) =
    Some (walk_spec
     (logged_cb PreOrder None) () (logged_cb InOrder None) ()
     (logged_cb PostOrder (Some (\<lambda>p a w. (if p = 3 then ERROR else OK, w)))) () ex_tree (ex_mem, (), []))"
    by (intro walk_total keeps_store_logged) (simp_all add: keeps_store_def ex_rep)
  then show ?thesis
    by (simp add: ex_tree_def walk_spec_def call_def logged_cb_def logged_def AVLU_MAX_HEIGHT_def)
qed

text \<open>
  C6. Take any sequence of calls of avlUintInsert on an empty tree that all return OK, and
  walk the resulting tree with an in-order routine; a pre-order and a post-order routine
  may be given as well. The routines may do anything to the caller's own state, leave the
  nodes alone and return OK. The walk returns, and the in-order routine has been invoked
  on every inserted node exactly once and on no other node, in strictly ascending order of
  the keys. Without a post-order routine the walk returns OK. (The post-order pass comes
  after all in-order invocations and has a stack check of its own, so with a post-order
  routine the status is left open here.)
\<close>

theorem inorder_walk_ascending:
  assumes "root s0 = None" and "insert_all ns s0 = Some s"
    and "harmless preRtn" and "harmless (Some f)" and "harmless postRtn"
  shows "\<exists>st u' log.
           avlUintTreeWalk (root s) (logged_cb PreOrder preRtn) preArg (Some (logged InOrder f)) inArg
             (logged_cb PostOrder postRtn) postArg (mem s, u, []) = Some (st, mem s, u', log) \<and>
           (postRtn = None \<longrightarrow> st = OK) \<and>
           distinct (visits InOrder log) \<and> set (visits InOrder log) = set ns \<and>
           sorted_wrt (<) (map (\<lambda>p. key (mem s p)) (visits InOrder log))"
proof -
  from assms(1) have "tree_inv s0 Leaf" by (simp add: tree_inv_def bst_def owned_def)
  from insert_all_inv[OF this _ assms(2)] obtain t where
    t: "tree_inv s t" "addrs t = set ns" "hgt t \<le> int AVLU_MAX_HEIGHT"
    by (auto simp: addrs_def)
  from t(1) have inv: "rep (mem s) t" "root s = ptr t" "owned t" "bst t"
    by (simp_all add: tree_inv_def)
  let ?pre = "logged_cb PreOrder preRtn" and ?post = "logged_cb PostOrder postRtn"
  let ?w = "(mem s, u, [] :: event list)"
  have inr: "logged_cb InOrder (Some f) = Some (logged InOrder f)" by (simp add: logged_cb_def)
  have run: "avlUintTreeWalk (ptr t) ?pre preArg (Some (logged InOrder f)) inArg ?post postArg ?w =
      Some (walk_spec ?pre preArg (Some (logged InOrder f)) inArg ?post postArg t ?w)"
    using inv(1) assms(3,4,5) unfolding inr[symmetric]
    by (intro walk_total keeps_store_logged harmless_keeps) simp_all
  from t(3) have "int 0 + hgt t \<le> 2 * int AVLU_MAX_HEIGHT" by simp
  from walk1_visits[OF assms(3,4) this, of preArg inArg "mem s" u "[]"] obtain u1 log1 where
    w1: "walk1 ?pre preArg (Some (logged InOrder f)) inArg t 0 ?w = Exit (mem s, u1, log1)"
    and v1: "visits InOrder log1 = map fst (inorder t)"
    unfolding inr by auto
  have "\<exists>st u' log.
      walk_spec ?pre preArg (Some (logged InOrder f)) inArg ?post postArg t ?w = (st, mem s, u', log) \<and>
      (postRtn = None \<longrightarrow> st = OK) \<and> visits InOrder log = map fst (inorder t)"
  proof (cases t)
    case Leaf
    then show ?thesis by (simp add: walk_spec_def)
  next
    case (Node l a k h r)
    then have nl: "t \<noteq> Leaf" by simp
    show ?thesis
    proof (cases postRtn)
      case None
      with w1 v1 nl show ?thesis by (simp add: walk_spec_def logged_cb_def)
    next
      case (Some g)
      with assms(5) have "harmless (Some g)" by simp
      from walk2_visits[OF this, of postArg t 0 "mem s" u1 log1] obtain u2 log2 where
        "walk2 (logged PostOrder g) postArg t 0 (mem s, u1, log1) = Exit (mem s, u2, log2) \<or>
         walk2 (logged PostOrder g) postArg t 0 (mem s, u1, log1) = Return (ERROR, mem s, u2, log2)"
        and "visits InOrder log2 = visits InOrder log1"
        by blast
      with w1 v1 nl Some show ?thesis by (auto simp: walk_spec_def logged_cb_def)
    qed
  qed
  then obtain st u' log where
    r: "walk_spec ?pre preArg (Some (logged InOrder f)) inArg ?post postArg t ?w = (st, mem s, u', log)"
      "postRtn = None \<longrightarrow> st = OK" "visits InOrder log = map fst (inorder t)"
    by blast
  from run r(1) inv(2)
  have 1: "avlUintTreeWalk (root s) ?pre preArg (Some (logged InOrder f)) inArg ?post postArg ?w =
      Some (st, mem s, u', log)"
    by simp
  have 2: "distinct (visits InOrder log)" using inv(3) by (simp add: r(3) owned_def)
  have 3: "set (visits InOrder log) = set ns" using t(2) by (simp add: r(3) addrs_def)
  have "map (\<lambda>p. key (mem s p)) (visits InOrder log) = map snd (inorder t)"
    unfolding r(3) using rep_key[OF inv(1)] by (auto simp: comp_def)
  with inv(4) have 4: "sorted_wrt (<) (map (\<lambda>p. key (mem s p)) (visits InOrder log))"
    by (simp add: bst_def)
  from 1 r(2) 2 3 4 show ?thesis by blast
qed

theorem inorder_walk_ascending_witness:
  "root (ex_state\<lparr>root := None\<rparr>) = None \<and>
   harmless (Some (\<lambda>p (a :: unit) (w :: unit world). (OK, w))) \<and>
   harmless (None :: (unit, unit) AVLU_CALLBACK) \<and>
   (\<exists>s. insert_all [1, 2, 3] (ex_state\<lparr>root := None\<rparr>) = Some s \<and>
     (\<exists>st u' log.
        avlUintTreeWalk (root s) (logged_cb PreOrder (Some (\<lambda>p a w. (OK, w)))) ()
          (Some (logged InOrder (\<lambda>p a w. (OK, w)))) ()
          (logged_cb PostOrder (Some (\<lambda>p a w. (OK, w)))) ()
          (mem s, (), []) = Some (st, mem s, u', log) \<and>
        distinct (visits InOrder log) \<and> set (visits InOrder log) = {1, 2, 3} \<and>
        sorted_wrt (<) (map (\<lambda>p. key (mem s p)) (visits InOrder log))) \<and>
     (\<exists>u' log.
        avlUintTreeWalk (root s) (logged_cb PreOrder None) ()
          (Some (logged InOrder (\<lambda>p a w. (OK, w)))) () (logged_cb PostOrder None) ()
          (mem s, (), []) = Some (OK, mem s, u', log) \<and>
        distinct (visits InOrder log) \<and> set (visits InOrder log) = {1, 2, 3} \<and>
        sorted_wrt (<) (map (\<lambda>p. key (mem s p)) (visits InOrder log))))"
proof -
  have 1: "root (ex_state\<lparr>root := None\<rparr>) = None" by simp
  from ex_insert_all obtain s where 2: "insert_all [1, 2, 3] (ex_state\<lparr>root := None\<rparr>) = Some s" ..
  have 3: "harmless (Some (\<lambda>p (a :: unit) (w :: unit world). (OK, w)))" by (simp add: harmless_def)
  have 4: "harmless (None :: (unit, unit) AVLU_CALLBACK)" by (simp add: harmless_def)
  from inorder_walk_ascending[OF 1 2 3 3 3, of "()" "()" "()" "()"]
    inorder_walk_ascending[OF 1 2 4 3 4, of "()" "()" "()" "()"] 1 2 3 4
  show ?thesis by auto
qed

text \<open>
  C8. Every callback is wrapped so that its invocations are logged, and the walk starts
  with an empty log. Whatever the store holds and whatever the callbacks do to it: when
  the walk returns, an invocation that returned ERROR is the last invocation of the walk,
  and the walk has returned ERROR. On a store that holds a tree, with callbacks that leave
  the nodes alone, the walk does return. On the \<open>NULL\<close> root the walk returns OK and the
  log is still empty.
\<close>

theorem walk_stops_at_callback_error:
  "(\<forall>st m' u' log.
      avlUintTreeWalk r (logged_cb PreOrder preRtn) preArg (logged_cb InOrder inRtn) inArg
        (logged_cb PostOrder postRtn) postArg (m, u, []) = Some (st, m', u', log) \<longrightarrow>
      (\<forall>l e l'. log = l @ e # l' \<and> result e = ERROR \<longrightarrow> l' = [] \<and> st = ERROR)) \<and>
   (rep m t \<and> keeps_store preRtn \<and> keeps_store inRtn \<and> keeps_store postRtn \<longrightarrow>
      (\<exists>st w'. avlUintTreeWalk (ptr t) (logged_cb PreOrder preRtn) preArg (logged_cb InOrder inRtn) inArg
        (logged_cb PostOrder postRtn) postArg (m, u, []) = Some (st, w'))) \<and>
   avlUintTreeWalk None (logged_cb PreOrder preRtn) preArg (logged_cb InOrder inRtn) inArg
     (logged_cb PostOrder postRtn) postArg (m, u, []) = Some (OK, m, u, [])"
proof (intro conjI allI impI)
  fix st m' u' log l e l'
  assume run: "avlUintTreeWalk r (logged_cb PreOrder preRtn) preArg (logged_cb InOrder inRtn) inArg
        (logged_cb PostOrder postRtn) postArg (m, u, []) = Some (st, m', u', log)"
    and e: "log = l @ e # l' \<and> result e = ERROR"
  have "ok_log (snd (snd (m, u, [] :: event list)))" by (simp add: ok_log_def)
  from walk_log[OF run this]
  have c: "(st = OK \<and> ok_log log) \<or> (st = ERROR \<and> ok_log (butlast log))" by simp
  from e have n: "\<not> ok_log log" by (auto simp: ok_log_def)
  with c have st: "st = ERROR" and b: "ok_log (butlast log)" by auto
  have "l' = []"
  proof (rule ccontr)
    assume "l' \<noteq> []"
    with e have "e \<in> set (butlast log)" by (simp add: butlast_append)
    with b e show False by (auto simp: ok_log_def)
  qed
  then show "l' = []" .
  from st show "st = ERROR" .
next
  assume a: "rep m t \<and> keeps_store preRtn \<and> keeps_store inRtn \<and> keeps_store postRtn"
  have "avlUintTreeWalk (ptr t) (logged_cb PreOrder preRtn) preArg (logged_cb InOrder inRtn) inArg
        (logged_cb PostOrder postRtn) postArg (m, u, []) =
        Some (walk_spec (logged_cb PreOrder preRtn) preArg (logged_cb InOrder inRtn) inArg
        (logged_cb PostOrder postRtn) postArg t (m, u, []))"
    using a by (intro walk_total keeps_store_logged) simp_all
  then show "\<exists>st w'. avlUintTreeWalk (ptr t) (logged_cb PreOrder preRtn) preArg (logged_cb InOrder inRtn) inArg
        (logged_cb PostOrder postRtn) postArg (m, u, []) = Some (st, w')"
    by (metis surj_pair)
next
  show "avlUintTreeWalk None (logged_cb PreOrder preRtn) preArg (logged_cb InOrder inRtn) inArg
     (logged_cb PostOrder postRtn) postArg (m, u, []) = Some (OK, m, u, [])"
    by (simp add: avlUintTreeWalk_def)
qed

theorem walk_stops_at_callback_error_witness:
  "rep ex_mem ex_tree \<and>
   keeps_store (Some (\<lambda>p (a :: unit) (w :: unit world). (OK, w))) \<and>
   keeps_store (Some (\<lambda>p (a :: unit) (w :: unit world). (if p = 2 then ERROR else OK, w))) \<and>
   avlUintTreeWalk (Some 2)
     (logged_cb PreOrder (Some (\<lambda>p a w. (OK, w)))) ()
     (logged_cb InOrder (Some (\<lambda>p a w. (if p = 2 then ERROR else OK, w)))) ()
     (logged_cb PostOrder (Some (\<lambda>p a w. (OK, w)))) () (ex_mem, (), []) =
   Some (ERROR, ex_mem, (),
     [Event PreOrder 2 OK, Event PreOrder 1 OK, Event InOrder 1 OK] @ Event InOrder 2 ERROR # []) \<and>
   result (Event InOrder 2 ERROR) = ERROR \<and>
   avlUintTreeWalk (Some 2)
     (logged_cb PreOrder None) () (logged_cb InOrder None) ()
     (logged_cb PostOrder (Some (\<lambda>p a w. (if p = 3 then ERROR else OK, w)))) () (ex_mem, (), []) =
   Some (ERROR, ex_mem, (), [Event PostOrder 1 OK] @ Event PostOrder 3 ERROR # []) \<and>
   avlUintTreeWalk None
     (logged_cb PreOrder (Some (\<lambda>p a w. (OK, w)))) ()
     (logged_cb InOrder (Some (\<lambda>p a w. (if p = 2 then ERROR else OK, w)))) ()
     (logged_cb PostOrder (Some (\<lambda>p a w. (OK, w)))) () (ex_mem, (), []) = Some (OK, ex_mem, (), [])"
  using walk_stops_at_callback_error[of "Some 2" "Some (\<lambda>p a w. (OK, w))" "()"
      "Some (\<lambda>p a w. (if p = 2 then ERROR else OK, w))" "()" "Some (\<lambda>p a w. (OK, w))" "()" ex_mem "()" ex_tree]
    walk_stops_at_callback_error[of "Some 2" None "()" None "()"
      "Some (\<lambda>p a w. (if p = 3 then ERROR else OK, w))" "()" ex_mem "()" ex_tree]
    ex_rep ex_walk_in_error ex_walk_post_error
  by (simp add: keeps_store_def)

text \<open>
  C5. The capacity error does occur on a well-formed tree far below \<open>2 ^ 28\<close> nodes.
  \<open>fib_state\<close> holds the AVL tree of height 28 with the fewest nodes, 832039 of them, with
  the keys 1 to 832039; it satisfies every invariant. Node 0, which is not in the tree,
  has the key 0, which is not in the tree either. The descent for it passes the 28 nodes
  of the leftmost path, the counter reaches AVLU_MAX_HEIGHT, and avlUintInsert returns
  ERROR without inserting.
\<close>

theorem insert_capacity_error_on_valid_tree:
  "tree_inv fib_state (fibt AVLU_MAX_HEIGHT 1) \<and>
   length (inorder (fibt AVLU_MAX_HEIGHT 1)) = 832039 \<and> (832039 :: nat) < 2 ^ 28 \<and>
   0 \<notin> addrs (fibt AVLU_MAX_HEIGHT 1) \<and>
   key (mem fib_state 0) \<notin> keys (fibt AVLU_MAX_HEIGHT 1) \<and>
   avlUintInsert fib_state (Some Root) (Some 0) = Some (ERROR, fib_state)"
proof -
  let ?t = "fibt AVLU_MAX_HEIGHT 1"
  have sz: "1 + fsize AVLU_MAX_HEIGHT \<le> 2 ^ 32" by (simp add: fsize_MAX)
  have a0: "0 \<notin> addrs ?t" unfolding addrs_fibt by simp
  have inv: "tree_inv fib_state ?t"
    using fibt_inv[OF sz] rep_store_of[OF fibt_inv(1)[OF sz]] avl_fibt[of AVLU_MAX_HEIGHT 1]
    by (simp add: tree_inv_def fib_state_def)
  have k0: "key (mem fib_state 0) = 0" using store_of_other[OF a0] by (simp add: fib_state_def)
  have fresh: "0 \<notin> keys ?t"
  proof
    assume "0 \<in> keys ?t"
    then have "\<exists>i \<in> {1 ..< 1 + fsize AVLU_MAX_HEIGHT}. (of_nat i :: UINT) = 0"
      unfolding keys_fibt by (simp only: image_iff) metis
    then obtain i where m: "i \<in> {1 ..< 1 + fsize AVLU_MAX_HEIGHT}" and z: "(of_nat i :: UINT) = 0"
      by blast
    from m have i: "0 < i" "i < 1 + fsize AVLU_MAX_HEIGHT" by simp_all
    from i(2) sz have "i < 2 ^ 32" by simp
    from word_of_nat_pos[OF i(1) this] z show False by simp
  qed
  have d: "ins_depth 0 ?t = AVLU_MAX_HEIGHT" by (rule ins_depth_fibt[OF _ sz]) simp
  have f: "key (mem fib_state 0) \<notin> keys ?t" unfolding k0 by (rule fresh)
  have "AVLU_MAX_HEIGHT \<le> ins_depth (key (mem fib_state 0)) ?t" unfolding k0 d by (rule order_refl)
  from insert_capacity[OF inv f this]
  have e: "avlUintInsert fib_state (Some Root) (Some 0) = Some (ERROR, fib_state)" .
  have n: "length (inorder ?t) = 832039" by (simp add: inorder_fibt fsize_MAX)
  have "(832039 :: nat) < 2 ^ 28" by simp
  with inv n a0 f e show ?thesis by (intro conjI)
qed

end
